theory Spec2Isabelle
  imports Complex_Main "HOL-Library.AList" "HOL-Library.Sublist"
begin

section \<open>Values on the wire\<close>

text \<open>
  What \<^verbatim>\<open>json.loads\<close> can hand to \<^verbatim>\<open>CDPClient._handle_message\<close>: a JSON value
  (numbers restricted to integers), or a \<^verbatim>\<open>JSONDecodeError\<close> for text that is not JSON.
  A Python dict is the association list of its items; \<^verbatim>\<open>d.get(k, default)\<close> is
  \<open>dict_get\<close>.
\<close>

datatype json =
    JNull
  | JBool bool
  | JInt int
  | JStr string
  | JArr "json list"
  | JObj "(string \<times> json) list"

datatype wire_msg = Garbage | Parsed json

datatype exc =
    TypeError
  | AttributeError
  | InvalidStateError
  | CDPError json json
  | RuntimeError
  | TimeoutError
  | CancelledError
  | ConnectFailed
  | BrowserError

definition dict_get :: "(string \<times> json) list \<Rightarrow> string \<Rightarrow> json \<Rightarrow> json" where
  "dict_get kvs k d = (case map_of kvs k of None \<Rightarrow> d | Some v \<Rightarrow> v)"

text \<open>\<^verbatim>\<open>k in data\<close> for a string \<open>k\<close>: key membership for a dict, element membership for a
  list, substring test for a string, \<^verbatim>\<open>TypeError\<close> for a number, a boolean or None.\<close>

definition py_contains :: "string \<Rightarrow> json \<Rightarrow> exc + bool" where
  "py_contains k data =
     (case data of
        JObj kvs \<Rightarrow> Inr (map_of kvs k \<noteq> None)
      | JArr xs \<Rightarrow> Inr (List.member xs (JStr k))
      | JStr s \<Rightarrow> Inr (sublist k s)
      | JNull \<Rightarrow> Inl TypeError
      | JBool b \<Rightarrow> Inl TypeError
      | JInt n \<Rightarrow> Inl TypeError)"

text \<open>Looking a value up in a dict hashes it first: lists and dicts are unhashable
  (\<^verbatim>\<open>TypeError\<close>). In a dict keyed by integers a boolean equals 0 or 1; a string or None
  equals no integer key. In a dict keyed by strings only a string can match.\<close>

definition int_key :: "json \<Rightarrow> exc + int option" where
  "int_key v =
     (case v of
        JInt n \<Rightarrow> Inr (Some n)
      | JBool b \<Rightarrow> Inr (Some (if b then 1 else 0))
      | JStr s \<Rightarrow> Inr None
      | JNull \<Rightarrow> Inr None
      | JArr xs \<Rightarrow> Inl TypeError
      | JObj kvs \<Rightarrow> Inl TypeError)"

definition str_key :: "json \<Rightarrow> exc + string option" where
  "str_key v =
     (case v of
        JStr s \<Rightarrow> Inr (Some s)
      | JInt n \<Rightarrow> Inr None
      | JBool b \<Rightarrow> Inr None
      | JNull \<Rightarrow> Inr None
      | JArr xs \<Rightarrow> Inl TypeError
      | JObj kvs \<Rightarrow> Inl TypeError)"

section \<open>The state of a CDPClient\<close>

text \<open>
  An \<^verbatim>\<open>asyncio.Future\<close> is shared between the coroutine that awaits it and the dict
  \<^verbatim>\<open>_callbacks\<close>, so futures live in a store (\<open>futures\<close>, indexed by address) and the
  dict holds addresses. A handler is compared by identity in \<^verbatim>\<open>off\<close>: a caller's handler
  is \<open>User n\<close>; the closure that \<^verbatim>\<open>wait_for_event\<close> builds is \<open>Waiter a p\<close>, capturing its
  future (address \<open>a\<close>) and the optional predicate. A future that the timer of its
  \<^verbatim>\<open>asyncio.wait_for\<close> has cancelled is \<open>Expired\<close>: cancelled and done like \<open>Cancelled\<close>, with
  \<^verbatim>\<open>TimeoutError\<close> waiting for the caller.
\<close>

datatype future = Pending | Result json | Raised exc | Cancelled | Expired

datatype handler = User nat | Waiter nat "(json \<Rightarrow> bool) option"

fun hid :: "handler \<Rightarrow> nat + nat" where
  "hid (User n) = Inl n"
| "hid (Waiter a p) = Inr a"

datatype websocket = Websocket (closed: bool)

datatype task_state = Running | Finished

text \<open>
  The fields of \<^verbatim>\<open>CDPClient.__init__\<close> (\<open>connected_flag\<close> is \<^verbatim>\<open>_connected\<close>), and four
  parts of the world around the object: the store of futures, the handler tasks that
  \<^verbatim>\<open>asyncio.create_task\<close> has queued on the event loop, the log of invocations of the
  callers' handlers, and every message \<^verbatim>\<open>ws.send\<close> has written.
\<close>

record client =
  ws :: "websocket option"
  callbacks :: "(int \<times> nat) list"
  event_handlers :: "(string \<times> handler list) list"
  id_counter :: int
  listen_task :: "task_state option"
  connected_flag :: bool
  ws_url :: "string option"
  futures :: "future list"
  tasks :: "(handler \<times> json) list"
  invoked :: "(nat \<times> json) list"
  wire :: "json list"

definition init_client :: client where
  "init_client =
     \<lparr>ws = None, callbacks = [], event_handlers = [], id_counter = 0, listen_task = None,
      connected_flag = False, ws_url = None, futures = [], tasks = [], invoked = [],
      wire = []\<rparr>"

definition connected :: "client \<Rightarrow> bool" where
  "connected c =
     (connected_flag c \<and> (case ws c of None \<Rightarrow> False | Some w \<Rightarrow> \<not> closed w))"

section \<open>close and connect\<close>

text \<open>\<^verbatim>\<open>future.cancel()\<close> on every future of \<^verbatim>\<open>_callbacks.values()\<close> that is not done.\<close>

definition cancel_future :: "nat \<Rightarrow> future list \<Rightarrow> future list" where
  "cancel_future a fs = (if a < length fs \<and> fs ! a = Pending then fs[a := Cancelled] else fs)"

definition close :: "client \<Rightarrow> client" where
  "close c =
     c\<lparr>connected_flag := False, listen_task := None, ws := None,
       futures := fold cancel_future (map snd (callbacks c)) (futures c),
       callbacks := []\<rparr>"

text \<open>\<open>ok\<close> says whether \<^verbatim>\<open>websockets.connect\<close> succeeded.\<close>

definition connect :: "client \<Rightarrow> string \<Rightarrow> bool \<Rightarrow> client \<times> exc option" where
  "connect c url ok =
     (let c1 = (if connected c then close c else c);
          c2 = c1\<lparr>ws_url := Some url\<rparr>
      in if ok
         then (c2\<lparr>ws := Some (Websocket False), connected_flag := True,
                   listen_task := Some Running\<rparr>, None)
         else (c2, Some ConnectFailed))"

section \<open>send\<close>

text \<open>
  \<^verbatim>\<open>send\<close> up to its suspension: the connection check, the next id, the future, its
  registration, the write. It returns the id and the address of the future.
\<close>

definition send_begin ::
  "client \<Rightarrow> string \<Rightarrow> (string \<times> json) list option \<Rightarrow> client \<times> (exc + int \<times> nat)" where
  "send_begin c method params =
     (if \<not> connected c then (c, Inl RuntimeError)
      else
        let msg_id = id_counter c + 1;
            message = JObj [(''id'', JInt msg_id), (''method'', JStr method),
                            (''params'', JObj (case params of None \<Rightarrow> [] | Some kvs \<Rightarrow> kvs))];
            a = length (futures c)
        in (c\<lparr>id_counter := msg_id,
              futures := futures c @ [Pending],
              callbacks := AList.update msg_id a (callbacks c),
              wire := wire c @ [message]\<rparr>,
            Inr (msg_id, a)))"

text \<open>
  The timer of \<^verbatim>\<open>asyncio.wait_for(future, timeout)\<close> fires: it cancels the future, if that is
  still pending. The caller is woken later, on another turn of the event loop.
\<close>

definition timeout_fires :: "client \<Rightarrow> nat \<Rightarrow> client" where
  "timeout_fires c a =
     (if a < length (futures c) \<and> futures c ! a = Pending
      then c\<lparr>futures := (futures c)[a := Expired]\<rparr> else c)"

text \<open>
  \<^verbatim>\<open>send\<close> when its caller resumes from \<^verbatim>\<open>wait_for\<close>: with the result or the exception of
  the future, with \<^verbatim>\<open>CancelledError\<close> if \<^verbatim>\<open>close\<close> cancelled it, or with \<^verbatim>\<open>TimeoutError\<close> if the
  timer did; only then does the handler of \<^verbatim>\<open>asyncio.TimeoutError\<close> pop the id. While the
  future is pending the caller stays suspended (\<open>None\<close>).
\<close>

definition send_resume :: "client \<Rightarrow> int \<Rightarrow> nat \<Rightarrow> (client \<times> (exc + json)) option" where
  "send_resume c msg_id a =
     (case futures c ! a of
        Result r \<Rightarrow> Some (c, Inr r)
      | Raised e \<Rightarrow> Some (c, Inl e)
      | Cancelled \<Rightarrow> Some (c, Inl CancelledError)
      | Expired \<Rightarrow>
          Some (c\<lparr>callbacks := AList.delete msg_id (callbacks c)\<rparr>, Inl TimeoutError)
      | Pending \<Rightarrow> None)"

section \<open>The receive loop\<close>

definition set_result :: "client \<Rightarrow> nat \<Rightarrow> json \<Rightarrow> client \<times> exc option" where
  "set_result c a v =
     (if a < length (futures c) \<and> futures c ! a = Pending
      then (c\<lparr>futures := (futures c)[a := Result v]\<rparr>, None)
      else (c, Some InvalidStateError))"

definition set_exception :: "client \<Rightarrow> nat \<Rightarrow> exc \<Rightarrow> client \<times> exc option" where
  "set_exception c a e =
     (if a < length (futures c) \<and> futures c ! a = Pending
      then (c\<lparr>futures := (futures c)[a := Raised e]\<rparr>, None)
      else (c, Some InvalidStateError))"

text \<open>The body of \<^verbatim>\<open>if msg_id in self._callbacks\<close>, for a dict \<open>kvs\<close> with an id.\<close>

definition resolve_callback ::
  "client \<Rightarrow> (string \<times> json) list \<Rightarrow> int \<Rightarrow> nat \<Rightarrow> client \<times> exc option" where
  "resolve_callback c kvs msg_id a =
     (let c1 = c\<lparr>callbacks := AList.delete msg_id (callbacks c)\<rparr>
      in case map_of kvs ''error'' of
           Some (JObj ekvs) \<Rightarrow>
             set_exception c1 a
               (CDPError (dict_get ekvs ''code'' (JInt (- 1)))
                         (dict_get ekvs ''message'' (JStr ''Unknown error'')))
         | Some other \<Rightarrow> (c1, Some AttributeError)
         | None \<Rightarrow> set_result c1 a (dict_get kvs ''result'' (JObj [])))"

text \<open>"Handle command responses": \<^verbatim>\<open>if "id" in data: ...\<close>.\<close>

definition handle_response :: "client \<Rightarrow> json \<Rightarrow> client \<times> exc option" where
  "handle_response c data =
     (case py_contains ''id'' data of
        Inl e \<Rightarrow> (c, Some e)
      | Inr False \<Rightarrow> (c, None)
      | Inr True \<Rightarrow>
          (case data of
             JObj kvs \<Rightarrow>
               (case int_key (dict_get kvs ''id'' JNull) of
                  Inl e \<Rightarrow> (c, Some e)
                | Inr None \<Rightarrow> (c, None)
                | Inr (Some msg_id) \<Rightarrow>
                    (case map_of (callbacks c) msg_id of
                       None \<Rightarrow> (c, None)
                     | Some a \<Rightarrow> resolve_callback c kvs msg_id a))
           | other \<Rightarrow> (c, Some TypeError)))"

text \<open>"Handle events": \<^verbatim>\<open>if "method" in data: ...\<close>; every handler of the method becomes a
  task of its own.\<close>

definition handle_event :: "client \<Rightarrow> json \<Rightarrow> client \<times> exc option" where
  "handle_event c data =
     (case py_contains ''method'' data of
        Inl e \<Rightarrow> (c, Some e)
      | Inr False \<Rightarrow> (c, None)
      | Inr True \<Rightarrow>
          (case data of
             JObj kvs \<Rightarrow>
               (case str_key (dict_get kvs ''method'' JNull) of
                  Inl e \<Rightarrow> (c, Some e)
                | Inr None \<Rightarrow> (c, None)
                | Inr (Some method) \<Rightarrow>
                    (case map_of (event_handlers c) method of
                       None \<Rightarrow> (c, None)
                     | Some hs \<Rightarrow>
                         (c\<lparr>tasks := tasks c
                                @ map (\<lambda>h. (h, dict_get kvs ''params'' (JObj []))) hs\<rparr>,
                          None)))
           | other \<Rightarrow> (c, Some TypeError)))"

definition handle_message :: "client \<Rightarrow> wire_msg \<Rightarrow> client \<times> exc option" where
  "handle_message c message =
     (case message of
        Garbage \<Rightarrow> (c, None)
      | Parsed data \<Rightarrow>
          (case handle_response c data of
             (c1, Some e) \<Rightarrow> (c1, Some e)
           | (c1, None) \<Rightarrow> handle_event c1 data))"

text \<open>
  One turn of \<^verbatim>\<open>_listen_loop\<close>: the task reads a message only while it runs; an
  exception out of \<^verbatim>\<open>_handle_message\<close> reaches \<^verbatim>\<open>except Exception\<close>, which clears
  \<^verbatim>\<open>_connected\<close> and ends the task. The end of the stream is a normal closure (the
  iteration just ends) or \<^verbatim>\<open>ConnectionClosed\<close>; either way the transport is closed.
\<close>

definition listen_step :: "client \<Rightarrow> wire_msg \<Rightarrow> client" where
  "listen_step c message =
     (if listen_task c \<noteq> Some Running then c
      else case handle_message c message of
             (c1, None) \<Rightarrow> c1
           | (c1, Some e) \<Rightarrow> c1\<lparr>connected_flag := False, listen_task := Some Finished\<rparr>)"

datatype closure = ClosedOK | ClosedError

definition listen_end :: "client \<Rightarrow> closure \<Rightarrow> client" where
  "listen_end c k =
     (if listen_task c \<noteq> Some Running then c
      else
        let c1 = c\<lparr>ws := map_option (\<lambda>w. Websocket True) (ws c),
                   listen_task := Some Finished\<rparr>
        in case k of ClosedOK \<Rightarrow> c1 | ClosedError \<Rightarrow> c1\<lparr>connected_flag := False\<rparr>)"

fun listen_loop :: "client \<Rightarrow> wire_msg list \<Rightarrow> closure \<Rightarrow> client" where
  "listen_loop c [] k = listen_end c k"
| "listen_loop c (m # ms) k = listen_loop (listen_step c m) ms k"

section \<open>Subscriptions\<close>

definition on :: "client \<Rightarrow> string \<Rightarrow> handler \<Rightarrow> client" where
  "on c event h =
     c\<lparr>event_handlers :=
         AList.update event
           ((case map_of (event_handlers c) event of None \<Rightarrow> [] | Some hs \<Rightarrow> hs) @ [h])
           (event_handlers c)\<rparr>"

definition off :: "client \<Rightarrow> string \<Rightarrow> handler option \<Rightarrow> client" where
  "off c event handler =
     (case map_of (event_handlers c) event of
        None \<Rightarrow> c
      | Some hs \<Rightarrow>
          (case handler of
             None \<Rightarrow> c\<lparr>event_handlers := AList.delete event (event_handlers c)\<rparr>
           | Some h \<Rightarrow>
               c\<lparr>event_handlers :=
                   AList.update event (filter (\<lambda>x. hid x \<noteq> hid h) hs) (event_handlers c)\<rparr>))"

text \<open>
  A handler task, when the event loop runs it. The closure of \<^verbatim>\<open>wait_for_event\<close> sets its
  future if the predicate accepts the parameters and the future is not done; a caller's
  handler is recorded as invoked. \<open>accepts\<close> is \<^verbatim>\<open>predicate is None or predicate(params)\<close>.
\<close>

definition accepts :: "(json \<Rightarrow> bool) option \<Rightarrow> json \<Rightarrow> bool" where
  "accepts predicate params = (case predicate of None \<Rightarrow> True | Some p \<Rightarrow> p params)"

fun run_handler :: "client \<Rightarrow> handler \<Rightarrow> json \<Rightarrow> client" where
  "run_handler c (User n) params = c\<lparr>invoked := invoked c @ [(n, params)]\<rparr>"
| "run_handler c (Waiter a predicate) params =
     (if accepts predicate params
      then (if a < length (futures c) \<and> futures c ! a = Pending
            then c\<lparr>futures := (futures c)[a := Result params]\<rparr> else c)
      else c)"

definition run_task :: "client \<Rightarrow> client" where
  "run_task c =
     (case tasks c of [] \<Rightarrow> c | (h, params) # ts \<Rightarrow> run_handler (c\<lparr>tasks := ts\<rparr>) h params)"

section \<open>Traces of operations on one client\<close>

datatype op =
    Connect string bool
  | Send string "(string \<times> json) list option"
  | TimerFires nat
  | Resume int nat
  | Recv wire_msg
  | StreamEnd closure
  | On string handler
  | Off string "handler option"
  | RunTask
  | Close

fun apply_op :: "client \<Rightarrow> op \<Rightarrow> client" where
  "apply_op c (Connect url ok) = fst (connect c url ok)"
| "apply_op c (Send method params) = fst (send_begin c method params)"
| "apply_op c (TimerFires a) = timeout_fires c a"
| "apply_op c (Resume msg_id a) =
     (case send_resume c msg_id a of None \<Rightarrow> c | Some (c1, r) \<Rightarrow> c1)"
| "apply_op c (Recv m) = listen_step c m"
| "apply_op c (StreamEnd k) = listen_end c k"
| "apply_op c (On event h) = on c event h"
| "apply_op c (Off event h) = off c event h"
| "apply_op c RunTask = run_task c"
| "apply_op c Close = close c"

fun run :: "client \<Rightarrow> op list \<Rightarrow> client" where
  "run c [] = c"
| "run c (x # xs) = run (apply_op c x) xs"

text \<open>The ids that the sends of a trace allocate, in order.\<close>

fun allocated :: "client \<Rightarrow> op list \<Rightarrow> int list" where
  "allocated c [] = []"
| "allocated c (x # xs) =
     (case x of
        Send method params \<Rightarrow>
          (case snd (send_begin c method params) of
             Inl e \<Rightarrow> allocated (apply_op c x) xs
           | Inr (msg_id, a) \<Rightarrow> msg_id # allocated (apply_op c x) xs)
      | other \<Rightarrow> allocated (apply_op c x) xs)"

section \<open>What an operation leaves alone\<close>

text \<open>\<open>frame c c'\<close>: the two states agree on every field but the callbacks, the futures
  and the queued tasks.\<close>

definition frame :: "client \<Rightarrow> client \<Rightarrow> bool" where
  "frame c c' =
     (ws c' = ws c \<and> event_handlers c' = event_handlers c \<and> id_counter c' = id_counter c \<and>
      listen_task c' = listen_task c \<and> connected_flag c' = connected_flag c \<and>
      ws_url c' = ws_url c \<and> invoked c' = invoked c \<and> wire c' = wire c)"

section \<open>Example states\<close>

text \<open>A connected client with two commands outstanding.\<close>

definition two_pending :: client where
  "two_pending =
     fst (send_begin (fst (send_begin (fst (connect init_client ''ws://a'' True))
       ''Page.enable'' None)) ''Page.navigate'' (Some [(''url'', JStr ''about:blank'')]))"

section \<open>Messages and traces used in the statements\<close>

text \<open>An event as the browser sends it: \<^verbatim>\<open>{"method": name, "params": ...}\<close>, the parameters
  optional, and no id.\<close>

definition event_msg :: "string \<Rightarrow> json option \<Rightarrow> wire_msg" where
  "event_msg name params =
     Parsed (JObj ((''method'', JStr name) #
                   (case params of None \<Rightarrow> [] | Some p \<Rightarrow> [(''params'', p)])))"

fun is_connect :: "op \<Rightarrow> bool" where
  "is_connect (Connect url ok) = True"
| "is_connect other = False"

text \<open>Between two stores of futures: the same futures, and none cancelled, by \<^verbatim>\<open>close\<close> or
  by a timer, that was not cancelled so before.\<close>

definition no_new_cancel :: "future list \<Rightarrow> future list \<Rightarrow> bool" where
  "no_new_cancel fs fs' =
     (length fs' = length fs \<and>
      (\<forall>a < length fs. (fs' ! a = Cancelled \<longrightarrow> fs ! a = Cancelled) \<and>
                          (fs' ! a = Expired \<longrightarrow> fs ! a = Expired)))"

text \<open>A successful response as the browser sends it: \<^verbatim>\<open>{"id": msg_id, "result": r}\<close>.\<close>

definition reply :: "int \<Rightarrow> json \<Rightarrow> wire_msg" where
  "reply msg_id r = Parsed (JObj [(''id'', JInt msg_id), (''result'', r)])"

text \<open>A connected client with one command outstanding, \<^verbatim>\<open>send("Foo.bar", {})\<close>.\<close>

definition one_pending :: client where
  "one_pending = fst (send_begin (fst (connect init_client ''ws://a'' True)) ''Foo.bar'' (Some []))"

section \<open>Concurrent sends\<close>

text \<open>
  The bookkeeping the client keeps between its operations: the registered ids are pairwise
  distinct and at most the counter, and they hold pairwise distinct futures of the store,
  all pending.
\<close>

definition wf_client :: "client \<Rightarrow> bool" where
  "wf_client c =
     (distinct (map fst (callbacks c)) \<and> distinct (map snd (callbacks c)) \<and>
      list_all (\<lambda>(msg_id, a). msg_id \<le> id_counter c \<and> a < length (futures c) \<and>
                  futures c ! a = Pending) (callbacks c))"

text \<open>\<open>n\<close> calls of \<^verbatim>\<open>send\<close>, each run up to its suspension, with the id and the future of
  each; then the receive loop takes a sequence of successful responses.\<close>

fun send_all ::
  "client \<Rightarrow> (string \<times> (string \<times> json) list option) list \<Rightarrow> client \<times> (int \<times> nat) list" where
  "send_all c [] = (c, [])"
| "send_all c ((method, params) # reqs) =
     (case send_begin c method params of
        (c1, Inl e) \<Rightarrow> send_all c1 reqs
      | (c1, Inr t) \<Rightarrow> (case send_all c1 reqs of (c2, ts) \<Rightarrow> (c2, t # ts)))"

fun deliver :: "client \<Rightarrow> (int \<times> json) list \<Rightarrow> client" where
  "deliver c [] = c"
| "deliver c ((msg_id, r) # rs) = deliver (listen_step c (reply msg_id r)) rs"

text \<open>A client just connected.\<close>

definition fresh_connection :: client where
  "fresh_connection = fst (connect init_client ''ws://a'' True)"

section \<open>wait_for_event\<close>

text \<open>
  \<^verbatim>\<open>wait_for_event\<close> up to its suspension (the future, the closure, \<^verbatim>\<open>self.on\<close>), and when
  its caller resumes from \<^verbatim>\<open>asyncio.wait_for\<close>: the future is done, or it is pending and
  the timeout has fired. The \<^verbatim>\<open>finally\<close> clause runs \<^verbatim>\<open>self.off\<close> either way.
\<close>

definition wait_begin ::
  "client \<Rightarrow> string \<Rightarrow> (json \<Rightarrow> bool) option \<Rightarrow> client \<times> handler \<times> nat" where
  "wait_begin c event predicate =
     (let a = length (futures c); handler = Waiter a predicate
      in (on (c\<lparr>futures := futures c @ [Pending]\<rparr>) event handler, handler, a))"

definition wait_resume :: "client \<Rightarrow> string \<Rightarrow> handler \<Rightarrow> nat \<Rightarrow> client \<times> (exc + json)" where
  "wait_resume c event handler a =
     (case futures c ! a of
        Result r \<Rightarrow> (off c event (Some handler), Inr r)
      | Raised e \<Rightarrow> (off c event (Some handler), Inl e)
      | Cancelled \<Rightarrow> (off c event (Some handler), Inl CancelledError)
      | Expired \<Rightarrow> (off c event (Some handler), Inl TimeoutError)
      | Pending \<Rightarrow>
          (off (c\<lparr>futures := (futures c)[a := Cancelled]\<rparr>) event (Some handler),
           Inl TimeoutError))"

text \<open>
  What happens while the caller is suspended: an event arrives and the receive loop handles
  it, or the event loop runs the oldest queued handler task (\<open>Tick\<close>). \<open>drain\<close> runs the
  tasks that are queued.
\<close>

datatype arrival = Event string "json option" | Tick

fun arrive :: "client \<Rightarrow> arrival \<Rightarrow> client" where
  "arrive c (Event name params) = listen_step c (event_msg name params)"
| "arrive c Tick = run_task c"

fun arrivals :: "client \<Rightarrow> arrival list \<Rightarrow> client" where
  "arrivals c [] = c"
| "arrivals c (x # xs) = arrivals (arrive c x) xs"

definition drain :: "client \<Rightarrow> client" where
  "drain c = arrivals c (replicate (length (tasks c)) Tick)"

text \<open>The parameters of the events of one name in a stream, as their handlers get them
  (\<^verbatim>\<open>data.get("params", {})\<close>), and the result of waiting for the first that the predicate
  accepts.\<close>

fun seen :: "string \<Rightarrow> arrival list \<Rightarrow> json list" where
  "seen ev [] = []"
| "seen ev (Event name params # xs) =
     (if name = ev then (case params of None \<Rightarrow> JObj [] | Some p \<Rightarrow> p) # seen ev xs
      else seen ev xs)"
| "seen ev (Tick # xs) = seen ev xs"

definition first_match :: "(json \<Rightarrow> bool) option \<Rightarrow> json list \<Rightarrow> exc + json" where
  "first_match predicate ps =
     (case find (accepts predicate) ps of None \<Rightarrow> Inl TimeoutError | Some p \<Rightarrow> Inr p)"

text \<open>A future created next is new to the client: no registered handler and no queued task
  is a closure over an address that the store does not hold yet.\<close>

fun below :: "nat \<Rightarrow> handler \<Rightarrow> bool" where
  "below n (User k) = True"
| "below n (Waiter a p) = (a < n)"

definition waiters_below :: "client \<Rightarrow> bool" where
  "waiters_below c =
     (list_all (\<lambda>(e, hs). list_all (below (length (futures c))) hs) (event_handlers c) \<and>
      list_all (\<lambda>(h, p). below (length (futures c)) h) (tasks c))"

text \<open>No list of handlers of the client holds the handler \<open>h\<close>.\<close>

definition unsubscribed :: "handler \<Rightarrow> client \<Rightarrow> bool" where
  "unsubscribed h c =
     list_all (\<lambda>e. case map_of (event_handlers c) e of
                      None \<Rightarrow> True
                    | Some hs \<Rightarrow> list_all (\<lambda>x. hid x \<noteq> hid h) hs)
       (map fst (event_handlers c))"

text \<open>
  For the proof: the parameters queued for the closure over the future at \<open>a\<close>, what a
  future becomes once a list of parameters has been offered to the closure, and the state
  of a client in which one such closure is subscribed to \<open>ev\<close> and nowhere else.
\<close>

definition mine :: "nat \<Rightarrow> (handler \<times> json) list \<Rightarrow> json list" where
  "mine a ts = map snd (filter (\<lambda>t. hid (fst t) = Inr a) ts)"

definition outcome :: "(json \<Rightarrow> bool) option \<Rightarrow> future \<Rightarrow> json list \<Rightarrow> future" where
  "outcome predicate f ps =
     (case f of
        Pending \<Rightarrow> (case find (accepts predicate) ps of None \<Rightarrow> Pending | Some p \<Rightarrow> Result p)
      | Result r \<Rightarrow> Result r
      | Raised e \<Rightarrow> Raised e
      | Cancelled \<Rightarrow> Cancelled
      | Expired \<Rightarrow> Expired)"

definition waiting :: "nat \<Rightarrow> string \<Rightarrow> (json \<Rightarrow> bool) option \<Rightarrow> client \<Rightarrow> bool" where
  "waiting a ev predicate c =
     (a < length (futures c) \<and> listen_task c = Some Running \<and>
      map_of (event_handlers c) ev \<noteq> None \<and>
      (\<forall>e hs. map_of (event_handlers c) e = Some hs \<longrightarrow>
          filter (\<lambda>x. hid x = Inr a) hs = (if e = ev then [Waiter a predicate] else [])) \<and>
      (\<forall>t \<in> set (tasks c). hid (fst t) = Inr a \<longrightarrow> fst t = Waiter a predicate))"

definition view :: "nat \<Rightarrow> string \<Rightarrow> (json \<Rightarrow> bool) option \<Rightarrow> client \<Rightarrow> arrival list \<Rightarrow> future" where
  "view a ev predicate c xs = outcome predicate (futures c ! a) (mine a (tasks c) @ seen ev xs)"

text \<open>A stream of events and a predicate for the examples.\<close>

definition load_events :: "arrival list" where
  "load_events =
     [Event ''Page.loadEventFired'' (Some (JObj [(''n'', JInt 1)])), Tick,
      Event ''Page.frameNavigated'' None,
      Event ''Page.loadEventFired'' (Some (JObj [(''n'', JInt 2)])),
      Event ''Page.loadEventFired'' (Some (JObj [(''n'', JInt 3)]))]"

definition wants_two :: "json \<Rightarrow> bool" where
  "wants_two p = (p = JObj [(''n'', JInt 2)] \<or> p = JObj [(''n'', JInt 3)])"

section \<open>Whole calls of send and wait_for_event\<close>

text \<open>
  A call of \<^verbatim>\<open>send\<close> from its start to its return. The receive loop handles the messages
  \<open>fst t\<close> while the caller is suspended. If the future is done by then, the caller
  resumes. Otherwise the timer of \<^verbatim>\<open>wait_for\<close> fires, the receive loop handles the messages
  \<open>snd t\<close> before the caller gets its turn, and then the caller resumes with
  \<^verbatim>\<open>TimeoutError\<close>. A call of \<^verbatim>\<open>wait_for_event\<close> is given what arrives meanwhile.
\<close>

type_synonym traffic = "wire_msg list \<times> wire_msg list"

fun receive :: "client \<Rightarrow> wire_msg list \<Rightarrow> client" where
  "receive c [] = c"
| "receive c (m # ms) = receive (listen_step c m) ms"

definition send ::
  "client \<Rightarrow> string \<Rightarrow> (string \<times> json) list option \<Rightarrow> traffic \<Rightarrow> client \<times> (exc + json)" where
  "send c method params t =
     (case send_begin c method params of
        (c1, Inl e) \<Rightarrow> (c1, Inl e)
      | (c1, Inr (msg_id, a)) \<Rightarrow>
          (let c2 = receive c1 (fst t)
           in case send_resume c2 msg_id a of
                Some r \<Rightarrow> r
              | None \<Rightarrow>
                  (let c3 = receive (timeout_fires c2 a) (snd t)
                   in (c3\<lparr>callbacks := AList.delete msg_id (callbacks c3)\<rparr>,
                       Inl TimeoutError))))"

definition wait_for_event ::
  "client \<Rightarrow> string \<Rightarrow> (json \<Rightarrow> bool) option \<Rightarrow> arrival list \<Rightarrow> client \<times> (exc + json)" where
  "wait_for_event c event predicate xs =
     (case wait_begin c event predicate of
        (c1, handler, a) \<Rightarrow> wait_resume (drain (arrivals c1 xs)) event handler a)"

section \<open>Browser\<close>

text \<open>
  The class \<^verbatim>\<open>Browser\<close>: its client, the id of its target and the set \<^verbatim>\<open>_enabled_domains\<close>.
  Each method takes, for each of its suspensions, what arrives during it.
\<close>

record browser =
  cdp :: client
  target_id :: json
  enabled_domains :: "string set"

definition new_browser :: "client \<Rightarrow> json \<Rightarrow> browser" where
  "new_browser c tid = \<lparr>cdp = c, target_id = tid, enabled_domains = {}\<rparr>"

definition enable_domain :: "browser \<Rightarrow> string \<Rightarrow> traffic \<Rightarrow> browser \<times> (exc + unit)" where
  "enable_domain b domain t =
     (if domain \<notin> enabled_domains b
      then (case send (cdp b) (domain @ ''.enable'') None t of
              (c1, Inl e) \<Rightarrow> (b\<lparr>cdp := c1\<rparr>, Inl e)
            | (c1, Inr r) \<Rightarrow>
                (b\<lparr>cdp := c1, enabled_domains := insert domain (enabled_domains b)\<rparr>, Inr ()))
      else (b, Inr ()))"

definition navigate ::
  "browser \<Rightarrow> string \<Rightarrow> string \<Rightarrow> traffic \<Rightarrow> traffic \<Rightarrow> arrival list
     \<Rightarrow> browser \<times> (exc + json)" where
  "navigate b url wait_until t1 t2 xs =
     (case enable_domain b ''Page'' t1 of
        (b1, Inl e) \<Rightarrow> (b1, Inl e)
      | (b1, Inr u) \<Rightarrow>
          (let event_name =
                 (if wait_until = ''load'' then ''Page.loadEventFired''
                  else if wait_until = ''domcontentloaded'' then ''Page.domContentEventFired''
                  else ''Page.loadEventFired'')
           in case send (cdp b1) ''Page.navigate'' (Some [(''url'', JStr url)]) t2 of
                (c2, Inl e) \<Rightarrow> (b1\<lparr>cdp := c2\<rparr>, Inl e)
              | (c2, Inr nav_result) \<Rightarrow>
                  (case wait_for_event c2 event_name None xs of
                     (c3, Inl e) \<Rightarrow>
                       (if e = TimeoutError then (b1\<lparr>cdp := c3\<rparr>, Inr nav_result)
                        else (b1\<lparr>cdp := c3\<rparr>, Inl e))
                   | (c3, Inr p) \<Rightarrow> (b1\<lparr>cdp := c3\<rparr>, Inr nav_result))))"

text \<open>\<^verbatim>\<open>result.get("result", {}).get("value", "")\<close>; a value without \<^verbatim>\<open>get\<close> raises
  \<^verbatim>\<open>AttributeError\<close>.\<close>

definition result_value :: "json \<Rightarrow> exc + json" where
  "result_value r =
     (case r of
        JObj kvs \<Rightarrow>
          (case dict_get kvs ''result'' (JObj []) of
             JObj kvs2 \<Rightarrow> Inr (dict_get kvs2 ''value'' (JStr ''''))
           | JNull \<Rightarrow> Inl AttributeError
           | JBool x \<Rightarrow> Inl AttributeError
           | JInt n \<Rightarrow> Inl AttributeError
           | JStr s \<Rightarrow> Inl AttributeError
           | JArr xs \<Rightarrow> Inl AttributeError)
      | JNull \<Rightarrow> Inl AttributeError
      | JBool x \<Rightarrow> Inl AttributeError
      | JInt n \<Rightarrow> Inl AttributeError
      | JStr s \<Rightarrow> Inl AttributeError
      | JArr xs \<Rightarrow> Inl AttributeError)"

definition evaluate ::
  "browser \<Rightarrow> string \<Rightarrow> traffic \<Rightarrow> traffic \<Rightarrow> browser \<times> (exc + json)" where
  "evaluate b expression t1 t2 =
     (case enable_domain b ''Runtime'' t1 of
        (b1, Inl e) \<Rightarrow> (b1, Inl e)
      | (b1, Inr u) \<Rightarrow>
          (case send (cdp b1) ''Runtime.evaluate''
                  (Some [(''expression'', JStr expression), (''returnByValue'', JBool True)]) t2 of
             (c2, Inl e) \<Rightarrow> (b1\<lparr>cdp := c2\<rparr>, Inl e)
           | (c2, Inr r) \<Rightarrow> (b1\<lparr>cdp := c2\<rparr>, result_value r)))"

definition get_url :: "browser \<Rightarrow> traffic \<Rightarrow> traffic \<Rightarrow> browser \<times> (exc + json)" where
  "get_url b t1 t2 = evaluate b ''window.location.href'' t1 t2"

definition get_title :: "browser \<Rightarrow> traffic \<Rightarrow> traffic \<Rightarrow> browser \<times> (exc + json)" where
  "get_title b t1 t2 = evaluate b ''document.title'' t1 t2"

definition browser_close :: "browser \<Rightarrow> browser" where
  "browser_close b = b\<lparr>cdp := close (cdp b)\<rparr>"

text \<open>Traces of operations on one Browser.\<close>

datatype bop =
    EnableDomain string traffic
  | Navigate string string traffic traffic "arrival list"
  | GetUrl traffic traffic
  | GetTitle traffic traffic
  | BrowserClose

fun apply_bop :: "browser \<Rightarrow> bop \<Rightarrow> browser" where
  "apply_bop b (EnableDomain d t) = fst (enable_domain b d t)"
| "apply_bop b (Navigate url w t1 t2 xs) = fst (navigate b url w t1 t2 xs)"
| "apply_bop b (GetUrl t1 t2) = fst (get_url b t1 t2)"
| "apply_bop b (GetTitle t1 t2) = fst (get_title b t1 t2)"
| "apply_bop b BrowserClose = browser_close b"

fun brun :: "browser \<Rightarrow> bop list \<Rightarrow> browser" where
  "brun b [] = b"
| "brun b (x # xs) = brun (apply_bop b x) xs"

text \<open>The command that \<^verbatim>\<open>enable_domain\<close> writes.\<close>

definition enable_message :: "int \<Rightarrow> string \<Rightarrow> json" where
  "enable_message msg_id d =
     JObj [(''id'', JInt msg_id), (''method'', JStr (d @ ''.enable'')), (''params'', JObj [])]"

text \<open>A Browser on a client just connected, and the traffic of a browser that never
  answers.\<close>

definition page_session :: browser where
  "page_session = new_browser fresh_connection (JStr ''T1'')"

definition silence :: traffic where
  "silence = ([], [])"

section \<open>BrowserManager\<close>

text \<open>Python's truth value of a JSON value (\<^verbatim>\<open>if not ws_url\<close>).\<close>

fun truthy :: "json \<Rightarrow> bool" where
  "truthy JNull = False"
| "truthy (JBool b) = b"
| "truthy (JInt n) = (n \<noteq> 0)"
| "truthy (JStr s) = (s \<noteq> [])"
| "truthy (JArr xs) = (xs \<noteq> [])"
| "truthy (JObj kvs) = (kvs \<noteq> [])"

text \<open>
  The argument vector of the spawned browser, one constructor per kind of argument, and the
  processes of the operating system: \<^verbatim>\<open>subprocess.Popen\<close> appends one, alive, and its
  position is its pid; \<^verbatim>\<open>terminate\<close> marks it.
\<close>

datatype arg = Exe string | DebugPort int | Flag string | UserDataDir string

datatype proc_state = Alive | Terminated

type_synonym procs = "(arg list \<times> proc_state) list"

text \<open>
  What one call of \<^verbatim>\<open>_try_connect\<close> finds: the value that \<^verbatim>\<open>_get_targets\<close> returns, which is
  whatever JSON the discovery endpoint answered (\<^verbatim>\<open>response.json()\<close>) or the empty list after
  any exception of the request, and whether \<^verbatim>\<open>websockets.connect\<close> succeeds.
\<close>

record attempt =
  targets :: json
  connect_ok :: bool

record manager =
  port :: int
  process :: "nat option"
  browser :: "browser option"
  http_client :: bool

definition init_manager :: "int \<Rightarrow> manager" where
  "init_manager p = \<lparr>port = p, process = None, browser = None, http_client = False\<rparr>"

text \<open>
  \<^verbatim>\<open>_get_page_target\<close>: \<^verbatim>\<open>for target in targets: if target.get("type") == "page": return
  target\<close>. Only a dict has \<^verbatim>\<open>get\<close>: any other element met before a page raises
  \<^verbatim>\<open>AttributeError\<close>. A dict iterates over its keys and a string over its characters, which
  are strings; a number, a boolean or None cannot be iterated (\<^verbatim>\<open>TypeError\<close>).
\<close>

fun first_page :: "json list \<Rightarrow> exc + (string \<times> json) list option" where
  "first_page [] = Inr None"
| "first_page (JObj target # ts) =
     (if map_of target ''type'' = Some (JStr ''page'') then Inr (Some target) else first_page ts)"
| "first_page (other # ts) = Inl AttributeError"

definition get_page_target :: "json \<Rightarrow> exc + (string \<times> json) list option" where
  "get_page_target ts =
     (case ts of
        JArr xs \<Rightarrow> first_page xs
      | JObj kvs \<Rightarrow> (if kvs = [] then Inr None else Inl AttributeError)
      | JStr s \<Rightarrow> (if s = [] then Inr None else Inl AttributeError)
      | JNull \<Rightarrow> Inl TypeError
      | JBool b \<Rightarrow> Inl TypeError
      | JInt n \<Rightarrow> Inl TypeError)"

text \<open>
  \<^verbatim>\<open>_try_connect\<close>. The call of \<^verbatim>\<open>_get_page_target\<close> stands before the \<^verbatim>\<open>try\<close>, so its
  exception leaves \<^verbatim>\<open>_try_connect\<close>; every exception of the connection and of
  \<^verbatim>\<open>target["id"]\<close> is caught and gives \<^verbatim>\<open>False\<close>.
\<close>

definition try_connect :: "manager \<Rightarrow> attempt \<Rightarrow> manager \<times> (exc + bool)" where
  "try_connect m att =
     (let m1 = m\<lparr>http_client := True\<rparr>
      in case get_page_target (targets att) of
           Inl e \<Rightarrow> (m1, Inl e)
         | Inr None \<Rightarrow> (m1, Inr False)
         | Inr (Some target) \<Rightarrow>
             (if target = [] then (m1, Inr False)
              else case map_of target ''webSocketDebuggerUrl'' of
                     None \<Rightarrow> (m1, Inr False)
                   | Some debugger_url \<Rightarrow>
                       (if \<not> truthy debugger_url then (m1, Inr False)
                        else case debugger_url of
                               JStr url \<Rightarrow>
                                 (case connect init_client url (connect_ok att) of
                                    (c, Some e) \<Rightarrow> (m1, Inr False)
                                  | (c, None) \<Rightarrow>
                                      (case map_of target ''id'' of
                                         None \<Rightarrow> (m1, Inr False)
                                       | Some tid \<Rightarrow>
                                           (m1\<lparr>browser := Some (new_browser c tid)\<rparr>,
                                            Inr True)))
                             | JNull \<Rightarrow> (m1, Inr False)
                             | JBool b \<Rightarrow> (m1, Inr False)
                             | JInt n \<Rightarrow> (m1, Inr False)
                             | JArr xs \<Rightarrow> (m1, Inr False)
                             | JObj kvs \<Rightarrow> (m1, Inr False))))"

text \<open>
  What \<^verbatim>\<open>launch\<close> meets: the first attempt, the results of the platform utilities
  (\<^verbatim>\<open>find_chrome_executable\<close>, \<^verbatim>\<open>find_default_profile_dir\<close>, \<^verbatim>\<open>is_profile_locked\<close>,
  \<^verbatim>\<open>get_temp_profile_dir\<close>), whether \<^verbatim>\<open>Popen\<close> succeeds, the clock at the start of the
  polling loop and, for each test of the loop condition, the clock then and the attempt
  made if the body runs. Times are real numbers of seconds.
\<close>

record launch_env =
  first_attempt :: attempt
  chrome_path :: "string option"
  profile_dir :: "string option"
  profile_locked :: bool
  temp_profile :: string
  popen_ok :: bool
  start_time :: real
  polls :: "(real \<times> attempt) list"

definition launch_args :: "manager \<Rightarrow> string \<Rightarrow> bool \<Rightarrow> bool \<Rightarrow> launch_env \<Rightarrow> arg list" where
  "launch_args m path headless use_profile env =
     [Exe path, DebugPort (port m), Flag ''--no-first-run'',
      Flag ''--no-default-browser-check'', Flag ''--disable-background-networking'',
      Flag ''--disable-default-apps'', Flag ''--disable-extensions'', Flag ''--disable-sync'',
      Flag ''--disable-translate'', Flag ''--metrics-recording-only'', Flag ''--mute-audio'',
      Flag ''--safebrowsing-disable-auto-update'']
     @ (if headless then [Flag ''--headless=new'', Flag ''--disable-gpu''] else [])
     @ [UserDataDir
          (if use_profile
           then (case profile_dir env of
                   None \<Rightarrow> temp_profile env
                 | Some d \<Rightarrow>
                     (if d = [] then temp_profile env
                      else if profile_locked env then temp_profile env else d))
           else temp_profile env)]"

definition terminate :: "nat \<Rightarrow> procs \<Rightarrow> procs" where
  "terminate pid ps = (if pid < length ps then ps[pid := (fst (ps ! pid), Terminated)] else ps)"

text \<open>
  The polling loop. It ends when an attempt succeeds, when an attempt raises (the exception
  leaves \<^verbatim>\<open>launch\<close> at once, past the clean-up), or when a clock reading is past the timeout
  (the clean-up, then \<^verbatim>\<open>BrowserError\<close>); while the readings given so far allow none of these,
  it has no result yet.
\<close>

fun poll ::
  "manager \<Rightarrow> procs \<Rightarrow> real \<Rightarrow> real \<Rightarrow> (real \<times> attempt) list
     \<Rightarrow> (manager \<times> procs \<times> (exc + browser option)) option" where
  "poll m ps start timeout [] = None"
| "poll m ps start timeout ((now, att) # rest) =
     (if now - start < timeout
      then (case try_connect m att of
              (m1, Inl e) \<Rightarrow> Some (m1, ps, Inl e)
            | (m1, Inr True) \<Rightarrow> Some (m1, ps, Inr (browser m1))
            | (m1, Inr False) \<Rightarrow> poll m1 ps start timeout rest)
      else (case process m of
              Some pid \<Rightarrow> Some (m\<lparr>process := None\<rparr>, terminate pid ps, Inl BrowserError)
            | None \<Rightarrow> Some (m, ps, Inl BrowserError)))"

definition attached :: "manager \<Rightarrow> bool" where
  "attached m = (case browser m of None \<Rightarrow> False | Some b \<Rightarrow> connected (cdp b))"

definition launch ::
  "manager \<Rightarrow> procs \<Rightarrow> bool \<Rightarrow> bool \<Rightarrow> real \<Rightarrow> launch_env
     \<Rightarrow> (manager \<times> procs \<times> (exc + browser option)) option" where
  "launch m ps headless use_profile timeout env =
     (if attached m then Some (m, ps, Inr (browser m))
      else case try_connect m (first_attempt env) of
             (m1, Inl e) \<Rightarrow> Some (m1, ps, Inl e)
           | (m1, Inr True) \<Rightarrow> Some (m1, ps, Inr (browser m1))
           | (m1, Inr False) \<Rightarrow>
               (case chrome_path env of
                  None \<Rightarrow> Some (m1, ps, Inl BrowserError)
                | Some path \<Rightarrow>
                    (if path = [] then Some (m1, ps, Inl BrowserError)
                     else if \<not> popen_ok env then Some (m1, ps, Inl BrowserError)
                     else poll (m1\<lparr>process := Some (length ps)\<rparr>)
                            (ps @ [(launch_args m1 path headless use_profile env, Alive)])
                            (start_time env) timeout (polls env))))"

text \<open>What an attempt comes to, and the relation between the processes before and after a
  call: the old ones untouched, every new one terminated.\<close>

definition attempt_result :: "attempt \<Rightarrow> exc + bool" where
  "attempt_result att = snd (try_connect (init_manager 9222) att)"

definition spawned_stopped :: "procs \<Rightarrow> procs \<Rightarrow> bool" where
  "spawned_stopped ps ps' =
     (length ps \<le> length ps' \<and> take (length ps) ps' = ps \<and>
      list_all (\<lambda>p. snd p = Terminated) (drop (length ps) ps'))"

text \<open>
  Nothing listens on the port (\<open>nothing_listening\<close>); the port answers the discovery request
  with a JSON object instead of a list of targets (\<open>wrong_shape\<close>). In \<open>no_browser_env\<close> the
  spawned browser never comes up; in \<open>wrong_shape_env\<close> the second poll gets the object.
\<close>

definition nothing_listening :: attempt where
  "nothing_listening = \<lparr>targets = JArr [], connect_ok = False\<rparr>"

definition wrong_shape :: attempt where
  "wrong_shape = \<lparr>targets = JObj [(''error'', JStr ''not found'')], connect_ok = False\<rparr>"

definition no_browser_env :: launch_env where
  "no_browser_env =
     \<lparr>first_attempt = nothing_listening, chrome_path = Some ''/usr/bin/chromium'',
      profile_dir = None, profile_locked = False, temp_profile = ''/tmp/profile'',
      popen_ok = True, start_time = 100,
      polls = [(100, nothing_listening), (100.5, nothing_listening), (101, nothing_listening)]\<rparr>"

definition wrong_shape_env :: launch_env where
  "wrong_shape_env =
     \<lparr>first_attempt = nothing_listening, chrome_path = Some ''/usr/bin/chromium'',
      profile_dir = None, profile_locked = False, temp_profile = ''/tmp/profile'',
      popen_ok = True, start_time = 100,
      polls = [(100, nothing_listening), (100.5, wrong_shape), (101, nothing_listening)]\<rparr>"

section \<open>The id counter\<close>

lemma id_counter_close: "id_counter (close c) = id_counter c"
  by (simp add: close_def)

lemma id_set_result: "id_counter (fst (set_result c a v)) = id_counter c"
  by (simp add: set_result_def)

lemma id_set_exception: "id_counter (fst (set_exception c a v)) = id_counter c"
  by (simp add: set_exception_def)

lemma id_resolve_callback: "id_counter (fst (resolve_callback c kvs i a)) = id_counter c"
  by (simp add: resolve_callback_def Let_def id_set_result id_set_exception split: option.splits json.splits)

lemma id_handle_response: "id_counter (fst (handle_response c d)) = id_counter c"
  by (simp add: handle_response_def id_resolve_callback split: sum.splits bool.splits json.splits option.splits)

lemma id_handle_event: "id_counter (fst (handle_event c d)) = id_counter c"
  by (simp add: handle_event_def split: sum.splits bool.splits json.splits option.splits)

lemma id_handle_message: "id_counter (fst (handle_message c m)) = id_counter c"
proof (cases m)
  case Garbage
  then show ?thesis by (simp add: handle_message_def)
next
  case (Parsed d)
  obtain c1 r where h: "handle_response c d = (c1, r)" by (cases "handle_response c d")
  have "id_counter c1 = id_counter c" using id_handle_response [of c d] h by simp
  then show ?thesis using Parsed h id_handle_event [of c1 d]
    by (cases r) (simp_all add: handle_message_def)
qed

lemma id_listen_step: "id_counter (listen_step c m) = id_counter c"
  using id_handle_message [of c m]
  by (cases "handle_message c m") (auto simp: listen_step_def split: option.splits)

lemma id_listen_end: "id_counter (listen_end c k) = id_counter c"
  by (simp add: listen_end_def Let_def split: closure.splits)

lemma id_connect: "id_counter (fst (connect c url ok)) = id_counter c"
  by (simp add: connect_def Let_def close_def)

lemma id_timeout_fires: "id_counter (timeout_fires c a) = id_counter c"
  by (simp add: timeout_fires_def)

lemma id_send_resume:
  "id_counter (case send_resume c i a of None \<Rightarrow> c | Some (c1, r) \<Rightarrow> c1) = id_counter c"
  by (simp add: send_resume_def split: future.splits)

lemma id_on: "id_counter (on c e h) = id_counter c"
  by (simp add: on_def)

lemma id_off: "id_counter (off c e h) = id_counter c"
  by (simp add: off_def split: option.splits)

lemma id_run_task: "id_counter (run_task c) = id_counter c"
proof (cases "tasks c")
  case Nil then show ?thesis by (simp add: run_task_def)
next
  case (Cons t ts)
  obtain h p where "t = (h, p)" by (cases t)
  then show ?thesis using Cons by (cases h) (simp_all add: run_task_def)
qed

lemma id_send_begin:
  "id_counter (fst (send_begin c m p)) = (if connected c then id_counter c + 1 else id_counter c)"
  by (simp add: send_begin_def Let_def)

lemma send_begin_id:
  "snd (send_begin c m p) = Inr (i, a) \<Longrightarrow> i = id_counter c + 1 \<and> id_counter (fst (send_begin c m p)) = i"
  by (simp add: send_begin_def Let_def split: if_splits)

lemma id_apply_op_mono: "id_counter c \<le> id_counter (apply_op c x)"
  by (cases x) (simp_all add: id_connect id_timeout_fires id_send_resume id_listen_step id_listen_end id_on id_off id_run_task id_counter_close id_send_begin)

lemma allocated_above:
  "i \<in> set (allocated c ops) \<Longrightarrow> id_counter c < i"
proof (induction ops arbitrary: c)
  case Nil then show ?case by simp
next
  case (Cons x xs)
  have mono: "id_counter c \<le> id_counter (apply_op c x)" by (rule id_apply_op_mono)
  show ?case
  proof (cases "i \<in> set (allocated (apply_op c x) xs)")
    case True
    then show ?thesis using Cons.IH [of "apply_op c x"] mono by simp
  next
    case False
    then obtain m p a where "x = Send m p" "snd (send_begin c m p) = Inr (i, a)"
      using Cons.prems by (auto split: op.splits sum.splits)
    then show ?thesis using send_begin_id [of c m p i a] by simp
  qed
qed

lemma allocated_sorted: "sorted_wrt (<) (allocated c ops)"
proof (induction ops arbitrary: c)
  case Nil then show ?case by simp
next
  case (Cons x xs)
  show ?case
  proof (cases x)
    case (Send m p)
    show ?thesis
    proof (cases "snd (send_begin c m p)")
      case (Inl e)
      then show ?thesis using Send Cons.IH by simp
    next
      case (Inr t)
      obtain i a where t: "t = (i, a)" by (cases t)
      have "id_counter (apply_op c x) = i" using send_begin_id [of c m p i a] Inr t Send by simp
      then have "\<forall>j\<in>set (allocated (apply_op c x) xs). i < j"
        using allocated_above [of _ "apply_op c x" xs] by auto
      then show ?thesis using Send Inr t Cons.IH [of "apply_op c x"] by simp
    qed
  qed (use Cons.IH in simp_all)
qed

lemma run_id_mono: "id_counter c \<le> id_counter (run c ops)"
proof (induction ops arbitrary: c)
  case Nil then show ?case by simp
next
  case (Cons x xs)
  show ?case using id_apply_op_mono [of c x] Cons.IH [of "apply_op c x"] by simp
qed

lemma allocated_below:
  "i \<in> set (allocated c ops) \<Longrightarrow> i \<le> id_counter (run c ops)"
proof (induction ops arbitrary: c)
  case Nil then show ?case by simp
next
  case (Cons x xs)
  show ?case
  proof (cases "i \<in> set (allocated (apply_op c x) xs)")
    case True
    then show ?thesis using Cons.IH [of "apply_op c x"] by simp
  next
    case False
    then obtain m p a where "x = Send m p" "snd (send_begin c m p) = Inr (i, a)"
      using Cons.prems by (auto split: op.splits sum.splits)
    then show ?thesis
      using send_begin_id [of c m p i a] run_id_mono [of "apply_op c x" xs] by simp
  qed
qed

text \<open>
  C10. The id counter of a client is moved only by \<^verbatim>\<open>send\<close>, which adds one when the client
  is connected; \<^verbatim>\<open>connect\<close> and \<^verbatim>\<open>close\<close> leave it alone. So over any trace of operations on
  one client, with any number of closes and reconnects in it, the ids that the sends
  allocate are strictly increasing, pairwise distinct, above the counter the trace started
  from and at most the counter it ends with.
\<close>

theorem command_ids_strictly_increasing:
  "id_counter (apply_op c x) =
     (case x of
        Send method params \<Rightarrow> (if connected c then id_counter c + 1 else id_counter c)
      | other \<Rightarrow> id_counter c) \<and>
   id_counter (fst (connect c url ok)) = id_counter c \<and>
   id_counter (close c) = id_counter c \<and>
   sorted_wrt (<) (allocated c ops) \<and>
   distinct (allocated c ops) \<and>
   (\<forall>i \<in> set (allocated c ops). id_counter c < i \<and> i \<le> id_counter (run c ops))"
proof -
  have step: "id_counter (apply_op c x) =
     (case x of
        Send method params \<Rightarrow> (if connected c then id_counter c + 1 else id_counter c)
      | other \<Rightarrow> id_counter c)"
    by (cases x)
       (simp_all add: id_connect id_timeout_fires id_send_resume id_listen_step id_listen_end id_on id_off
          id_run_task id_counter_close id_send_begin)
  have srt: "sorted_wrt (<) (allocated c ops)" by (rule allocated_sorted)
  have "distinct (allocated c ops)"
    using srt by (simp add: strict_sorted_iff)
  then show ?thesis
    using step srt allocated_above allocated_below
    by (simp add: id_connect id_counter_close)
qed

theorem command_ids_strictly_increasing_witness:
  "allocated init_client
     [Connect ''ws://a'' True, Send ''Page.enable'' None, Close,
      Connect ''ws://b'' True, Send ''Page.enable'' None] = [1, 2] \<and>
   sorted_wrt (<) (allocated init_client
     [Connect ''ws://a'' True, Send ''Page.enable'' None, Close,
      Connect ''ws://b'' True, Send ''Page.enable'' None]) \<and>
   distinct (allocated init_client
     [Connect ''ws://a'' True, Send ''Page.enable'' None, Close,
      Connect ''ws://b'' True, Send ''Page.enable'' None])"
proof -
  have "allocated init_client
     [Connect ''ws://a'' True, Send ''Page.enable'' None, Close,
      Connect ''ws://b'' True, Send ''Page.enable'' None] = [1, 2]"
    by (simp add: init_client_def connect_def connected_def send_begin_def close_def Let_def)
  then show ?thesis
    using command_ids_strictly_increasing
      [where c = init_client and ops = "[Connect ''ws://a'' True, Send ''Page.enable'' None,
         Close, Connect ''ws://b'' True, Send ''Page.enable'' None]"]
    by simp
qed

section \<open>Frame lemmas for the receive loop\<close>

lemma frame_refl: "frame c c"
  by (simp add: frame_def)

lemma frame_trans: "frame c c1 \<Longrightarrow> frame c1 c2 \<Longrightarrow> frame c c2"
  by (simp add: frame_def)

lemma frame_set_result: "frame c (fst (set_result c a v))"
  by (simp add: set_result_def frame_def)

lemma frame_set_exception: "frame c (fst (set_exception c a v))"
  by (simp add: set_exception_def frame_def)

lemma frame_resolve_callback: "frame c (fst (resolve_callback c kvs i a))"
proof -
  let ?c1 = "c\<lparr>callbacks := AList.delete i (callbacks c)\<rparr>"
  have 1: "frame c ?c1" by (simp add: frame_def)
  have "frame ?c1 (fst (resolve_callback c kvs i a))"
    by (simp add: resolve_callback_def Let_def frame_refl frame_set_result frame_set_exception
         split: option.splits json.splits)
  with 1 show ?thesis by (rule frame_trans)
qed

lemma frame_handle_response: "frame c (fst (handle_response c d))"
  by (simp add: handle_response_def frame_refl frame_resolve_callback
       split: sum.splits bool.splits json.splits option.splits)

lemma frame_handle_event: "frame c (fst (handle_event c d))"
  by (simp add: handle_event_def frame_def
       split: sum.splits bool.splits json.splits option.splits)

lemma frame_handle_message: "frame c (fst (handle_message c m))"
proof (cases m)
  case Garbage
  then show ?thesis by (simp add: handle_message_def frame_refl)
next
  case (Parsed d)
  obtain c1 r where h: "handle_response c d = (c1, r)" by (cases "handle_response c d")
  have 1: "frame c c1" using frame_handle_response [of c d] h by simp
  have 2: "frame c1 (fst (handle_event c1 d))" by (rule frame_handle_event)
  show ?thesis using Parsed h 1 frame_trans [OF 1 2]
    by (cases r) (simp_all add: handle_message_def)
qed

section \<open>close\<close>

lemma length_cancel_all: "length (fold cancel_future as fs) = length fs"
  by (induction as arbitrary: fs) (simp_all add: cancel_future_def)

lemma nth_cancel_all:
  "a < length fs \<Longrightarrow>
   fold cancel_future as fs ! a = (if a \<in> set as \<and> fs ! a = Pending then Cancelled else fs ! a)"
proof (induction as arbitrary: fs)
  case Nil then show ?case by simp
next
  case (Cons b bs)
  have len: "a < length (cancel_future b fs)" using Cons.prems by (simp add: cancel_future_def)
  show ?case using Cons.IH [OF len] Cons.prems
    by (auto simp add: cancel_future_def nth_list_update)
qed

lemma close_idem: "close (close c) = close c"
  by (simp add: close_def)

lemma not_connected_close: "\<not> connected (close c)"
  by (simp add: close_def connected_def)

lemma send_begin_not_connected: "\<not> connected c \<Longrightarrow> send_begin c m p = (c, Inl RuntimeError)"
  by (simp add: send_begin_def)

lemma two_pending_eval: "callbacks two_pending = [(1, 0), (2, 1)] \<and> futures two_pending = [Pending, Pending]"
  by (simp add: two_pending_def init_client_def connect_def connected_def send_begin_def Let_def)

text \<open>
  C3. \<^verbatim>\<open>close\<close> is idempotent. After it no command is registered: every future that was
  registered and pending is cancelled, every other future is as it was, and the caller of
  a cancelled command resumes with \<^verbatim>\<open>CancelledError\<close>, which is not a \<^verbatim>\<open>CDPError\<close>. A
  \<^verbatim>\<open>send\<close> on the closed client is refused with the error of a client that is not connected
  (\<^verbatim>\<open>RuntimeError("CDP client not connected")\<close>) and changes nothing.
\<close>

theorem close_cancels_pending:
  "close (close c) = close c \<and>
   callbacks (close c) = [] \<and>
   length (futures (close c)) = length (futures c) \<and>
   (\<forall>a < length (futures c).
      futures (close c) ! a =
        (if a \<in> snd ` set (callbacks c) \<and> futures c ! a = Pending then Cancelled
         else futures c ! a)) \<and>
   (\<forall>(msg_id, a) \<in> set (callbacks c).
      a < length (futures c) \<and> futures c ! a = Pending \<longrightarrow>
      send_resume (close c) msg_id a = Some (close c, Inl CancelledError)) \<and>
   (\<forall>code message. CancelledError \<noteq> CDPError code message) \<and>
   send_begin (close c) method params = (close c, Inl RuntimeError)"
proof -
  have nth: "\<forall>a < length (futures c).
      futures (close c) ! a =
        (if a \<in> snd ` set (callbacks c) \<and> futures c ! a = Pending then Cancelled
         else futures c ! a)"
    by (simp add: close_def nth_cancel_all)
  have res: "\<forall>(msg_id, a) \<in> set (callbacks c).
      a < length (futures c) \<and> futures c ! a = Pending \<longrightarrow>
      send_resume (close c) msg_id a = Some (close c, Inl CancelledError)"
  proof (clarify)
    fix i a assume m: "(i, a) \<in> set (callbacks c)" and l: "a < length (futures c)"
      and p: "futures c ! a = Pending"
    have "a \<in> snd ` set (callbacks c)" using m by force
    then have "futures (close c) ! a = Cancelled" using nth l p by simp
    then show "send_resume (close c) i a = Some (close c, Inl CancelledError)"
      by (simp add: send_resume_def)
  qed
  show ?thesis
    using nth res
    by (simp add: close_idem send_begin_not_connected not_connected_close)
       (simp add: close_def length_cancel_all)
qed

theorem close_cancels_pending_witness:
  "callbacks two_pending = [(1, 0), (2, 1)] \<and>
   futures two_pending = [Pending, Pending] \<and>
   callbacks (close two_pending) = [] \<and>
   futures (close two_pending) ! 0 = Cancelled \<and>
   futures (close two_pending) ! 1 = Cancelled \<and>
   send_resume (close two_pending) 1 0 = Some (close two_pending, Inl CancelledError) \<and>
   send_resume (close two_pending) 2 1 = Some (close two_pending, Inl CancelledError) \<and>
   send_begin (close two_pending) ''Page.enable'' None = (close two_pending, Inl RuntimeError)"
  using close_cancels_pending [of two_pending "''Page.enable''" None] two_pending_eval
  by simp

section \<open>Subscriptions survive close\<close>

lemma event_handlers_close: "event_handlers (close c) = event_handlers c"
  by (simp add: close_def)

lemma event_handlers_connect: "event_handlers (fst (connect c url ok)) = event_handlers c"
  by (simp add: connect_def Let_def close_def)

lemma handle_event_msg:
  "handle_message c (event_msg name params) =
     (case map_of (event_handlers c) name of
        None \<Rightarrow> (c, None)
      | Some hs \<Rightarrow>
          (c\<lparr>tasks := tasks c @ map (\<lambda>h. (h, case params of None \<Rightarrow> JObj [] | Some p \<Rightarrow> p)) hs\<rparr>,
           None))"
  by (cases params)
     (simp_all add: event_msg_def handle_message_def handle_response_def handle_event_def
        py_contains_def str_key_def dict_get_def split: option.splits)

text \<open>
  C9, as the code has it. \<^verbatim>\<open>close\<close> does not touch \<^verbatim>\<open>_event_handlers\<close>, and neither does a
  later \<^verbatim>\<open>connect\<close>: every subscription made before the close is still registered, and an
  event of that name arriving on the next connection is dispatched to each of those
  handlers.
\<close>

theorem close_keeps_subscriptions:
  "event_handlers (close c) = event_handlers c \<and>
   event_handlers (fst (connect (close c) url ok)) = event_handlers c \<and>
   (\<forall>hs. map_of (event_handlers c) name = Some hs \<longrightarrow>
      handle_message (fst (connect (close c) url True)) (event_msg name (Some p)) =
        ((fst (connect (close c) url True))
           \<lparr>tasks := tasks (fst (connect (close c) url True)) @ map (\<lambda>h. (h, p)) hs\<rparr>, None))"
  by (simp add: event_handlers_close event_handlers_connect handle_event_msg)

theorem close_keeps_subscriptions_witness:
  "map_of (event_handlers (on init_client ''Page.loadEventFired'' (User 7))) ''Page.loadEventFired''
     = Some [User 7] \<and>
   tasks (fst (handle_message
      (fst (connect (close (on init_client ''Page.loadEventFired'' (User 7))) ''ws://b'' True))
      (event_msg ''Page.loadEventFired'' (Some (JObj [(''timestamp'', JInt 5)]))))) =
     [(User 7, JObj [(''timestamp'', JInt 5)])]"
proof -
  have h: "map_of (event_handlers (on init_client ''Page.loadEventFired'' (User 7)))
      ''Page.loadEventFired'' = Some [User 7]"
    by (simp add: init_client_def on_def)
  have t: "tasks (fst (connect (close (on init_client ''Page.loadEventFired'' (User 7)))
      ''ws://b'' True)) = []"
    by (simp add: init_client_def on_def close_def connect_def connected_def Let_def)
  show ?thesis
    using h t
      close_keeps_subscriptions [where c = "on init_client ''Page.loadEventFired'' (User 7)"
        and name = "''Page.loadEventFired''" and url = "''ws://b''"
        and p = "JObj [(''timestamp'', JInt 5)]"]
    by simp
qed

text \<open>
  C9 as stated fails: a handler registered before \<^verbatim>\<open>close\<close> is still registered after it,
  and an event on the connection opened afterwards invokes it.
\<close>

theorem close_clears_subscriptions_counterexample:
  "event_handlers (close (on init_client ''Page.loadEventFired'' (User 7))) =
     [(''Page.loadEventFired'', [User 7])] \<and>
   invoked (run init_client
     [On ''Page.loadEventFired'' (User 7), Connect ''ws://a'' True, Close,
      Connect ''ws://b'' True, Recv (event_msg ''Page.loadEventFired'' None), RunTask]) =
     [(7, JObj [])]"
  by (simp add: init_client_def on_def close_def connect_def connected_def Let_def
        listen_step_def handle_event_msg run_task_def)

section \<open>Loss of the connection\<close>

lemma connected_frame: "frame c c' \<Longrightarrow> connected c' = connected c"
  by (simp add: frame_def connected_def)

lemma connected_listen_step: "connected (listen_step c m) \<Longrightarrow> connected c"
proof -
  assume a: "connected (listen_step c m)"
  obtain c1 r where h: "handle_message c m = (c1, r)" by (cases "handle_message c m")
  have f: "frame c c1" using frame_handle_message [of c m] h by simp
  show ?thesis
  proof (cases "listen_task c = Some Running")
    case False then show ?thesis using a by (simp add: listen_step_def)
  next
    case True
    show ?thesis
    proof (cases r)
      case None
      then show ?thesis using a True h connected_frame [OF f] by (simp add: listen_step_def)
    next
      case (Some e)
      then show ?thesis using a True h by (simp add: listen_step_def connected_def)
    qed
  qed
qed

lemma not_connected_listen_end:
  "listen_task c = Some Running \<Longrightarrow> \<not> connected (listen_end c k)"
  by (cases "ws c") (simp_all add: listen_end_def Let_def connected_def split: closure.splits)

lemma connected_listen_end: "connected (listen_end c k) \<Longrightarrow> connected c"
  using not_connected_listen_end [of c k]
  by (cases "listen_task c = Some Running") (simp_all add: listen_end_def)

lemma connected_run_task: "connected (run_task c) = connected c"
proof (cases "tasks c")
  case Nil then show ?thesis by (simp add: run_task_def)
next
  case (Cons t ts)
  obtain h p where "t = (h, p)" by (cases t)
  then show ?thesis using Cons by (cases h) (simp_all add: run_task_def connected_def)
qed

lemma connected_apply_op:
  "\<not> is_connect x \<Longrightarrow> connected (apply_op c x) \<Longrightarrow> connected c"
proof (cases x)
  case (Recv m) then show "connected (apply_op c x) \<Longrightarrow> connected c"
    using connected_listen_step by simp
next
  case (StreamEnd k) then show "connected (apply_op c x) \<Longrightarrow> connected c"
    using connected_listen_end by simp
next
  case RunTask then show "connected (apply_op c x) \<Longrightarrow> connected c"
    using connected_run_task by simp
next
  case Close then show "connected (apply_op c x) \<Longrightarrow> connected c"
    using not_connected_close by simp
qed (auto simp add: connected_def send_begin_def send_resume_def timeout_fires_def on_def off_def
       Let_def split: future.splits option.splits if_splits)

lemma not_connected_run:
  "\<not> connected c \<Longrightarrow> \<not> list_ex is_connect ops \<Longrightarrow> \<not> connected (run c ops)"
proof (induction ops arbitrary: c)
  case Nil then show ?case by simp
next
  case (Cons x xs)
  have "\<not> connected (apply_op c x)" using Cons.prems connected_apply_op [of x c] by auto
  then show ?case using Cons.IH [of "apply_op c x"] Cons.prems by simp
qed

lemma nnc_refl: "no_new_cancel fs fs" by (simp add: no_new_cancel_def)

lemma nnc_set_result: "no_new_cancel (futures c) (futures (fst (set_result c a v)))"
  by (simp add: set_result_def no_new_cancel_def nth_list_update)

lemma nnc_set_exception: "no_new_cancel (futures c) (futures (fst (set_exception c a v)))"
  by (simp add: set_exception_def no_new_cancel_def nth_list_update)

lemma nnc_resolve_callback: "no_new_cancel (futures c) (futures (fst (resolve_callback c kvs i a)))"
proof -
  let ?c1 = "c\<lparr>callbacks := AList.delete i (callbacks c)\<rparr>"
  have r: "\<And>v. no_new_cancel (futures c) (futures (fst (set_result ?c1 a v)))"
    using nnc_set_result [of ?c1 a] by simp
  have e: "\<And>v. no_new_cancel (futures c) (futures (fst (set_exception ?c1 a v)))"
    using nnc_set_exception [of ?c1 a] by simp
  show ?thesis
    by (simp add: resolve_callback_def Let_def nnc_refl r e split: option.splits json.splits)
qed

lemma nnc_handle_response: "no_new_cancel (futures c) (futures (fst (handle_response c d)))"
  by (simp add: handle_response_def nnc_refl nnc_resolve_callback
       split: sum.splits bool.splits json.splits option.splits)

lemma futures_handle_event: "futures (fst (handle_event c d)) = futures c"
  by (simp add: handle_event_def
       split: sum.splits bool.splits json.splits option.splits)

lemma nnc_handle_message: "no_new_cancel (futures c) (futures (fst (handle_message c m)))"
proof (cases m)
  case Garbage
  then show ?thesis by (simp add: handle_message_def nnc_refl)
next
  case (Parsed d)
  obtain c1 r where h: "handle_response c d = (c1, r)" by (cases "handle_response c d")
  have 1: "no_new_cancel (futures c) (futures c1)" using nnc_handle_response [of c d] h by simp
  show ?thesis using Parsed h 1 futures_handle_event [of c1 d]
    by (cases r) (simp_all add: handle_message_def)
qed

lemma listen_step_dies:
  "listen_task c = Some Running \<Longrightarrow> snd (handle_message c m) \<noteq> None \<Longrightarrow>
   \<not> connected (listen_step c m) \<and> listen_task (listen_step c m) = Some Finished \<and>
   no_new_cancel (futures c) (futures (listen_step c m))"
  using nnc_handle_message [of c m]
  by (cases "handle_message c m") (auto simp add: listen_step_def connected_def)

text \<open>
  C4, as the code has it. When the stream ends under a running receive loop (normal closure
  or \<^verbatim>\<open>ConnectionClosed\<close>) the client is no longer connected, and the registered commands and
  their futures are exactly as before: nothing is cancelled. When the loop dies on an
  exception out of \<^verbatim>\<open>_handle_message\<close> the client is no longer connected either, and no
  future is cancelled by it. A client that is not connected stays so over every trace of
  operations without a \<^verbatim>\<open>connect\<close>: it never reconnects on its own.
\<close>

theorem connection_loss_marks_disconnected:
  "(listen_task c = Some Running \<longrightarrow>
      \<not> connected (listen_end c k) \<and> listen_task (listen_end c k) = Some Finished \<and>
      callbacks (listen_end c k) = callbacks c \<and> futures (listen_end c k) = futures c) \<and>
   (listen_task c = Some Running \<and> snd (handle_message c m) \<noteq> None \<longrightarrow>
      \<not> connected (listen_step c m) \<and> listen_task (listen_step c m) = Some Finished \<and>
      no_new_cancel (futures c) (futures (listen_step c m))) \<and>
   (\<not> connected c \<and> \<not> list_ex is_connect ops \<longrightarrow> \<not> connected (run c ops))"
proof -
  have 1: "listen_task c = Some Running \<longrightarrow>
      \<not> connected (listen_end c k) \<and> listen_task (listen_end c k) = Some Finished \<and>
      callbacks (listen_end c k) = callbacks c \<and> futures (listen_end c k) = futures c"
    using not_connected_listen_end [of c k]
    by (simp add: listen_end_def Let_def split: closure.splits)
  show ?thesis using 1 listen_step_dies [of c m] not_connected_run [of c ops] by blast
qed

theorem connection_loss_marks_disconnected_witness:
  "listen_task two_pending = Some Running \<and>
   \<not> connected (listen_end two_pending ClosedOK) \<and>
   futures (listen_end two_pending ClosedOK) = [Pending, Pending] \<and>
   snd (handle_message two_pending (Parsed (JInt 5))) = Some TypeError \<and>
   \<not> connected (listen_step two_pending (Parsed (JInt 5))) \<and>
   \<not> list_ex is_connect [Send ''Page.enable'' None, Recv Garbage, RunTask] \<and>
   \<not> connected (run (listen_end two_pending ClosedOK) [Send ''Page.enable'' None, Recv Garbage, RunTask])"
proof -
  have a: "listen_task two_pending = Some Running"
    by (simp add: two_pending_def init_client_def connect_def connected_def send_begin_def Let_def)
  have b: "snd (handle_message two_pending (Parsed (JInt 5))) = Some TypeError"
    by (simp add: handle_message_def handle_response_def py_contains_def)
  have c: "\<not> list_ex is_connect [Send ''Page.enable'' None, Recv Garbage, RunTask]" by simp
  have d: "\<not> connected (listen_end two_pending ClosedOK)"
    using a connection_loss_marks_disconnected [of two_pending ClosedOK "Parsed (JInt 5)" "[]"]
    by simp
  show ?thesis
    using a b c d two_pending_eval
      connection_loss_marks_disconnected [of two_pending ClosedOK "Parsed (JInt 5)" "[]"]
      connection_loss_marks_disconnected [of "listen_end two_pending ClosedOK" ClosedOK "Parsed (JInt 5)"
        "[Send ''Page.enable'' None, Recv Garbage, RunTask]"]
    by simp
qed

text \<open>
  C4 as stated fails: with two commands outstanding, the loss of the connection leaves both
  registered and both futures pending.
\<close>

theorem connection_loss_cancels_pending_counterexample:
  "connected two_pending \<and> listen_task two_pending = Some Running \<and>
   callbacks (listen_end two_pending ClosedError) = [(1, 0), (2, 1)] \<and>
   futures (listen_end two_pending ClosedError) = [Pending, Pending] \<and>
   \<not> connected (listen_end two_pending ClosedError)"
  by (simp add: two_pending_def init_client_def connect_def connected_def send_begin_def Let_def
        listen_end_def)

section \<open>Timeouts and late replies\<close>

lemma listen_step_Garbage: "listen_step c Garbage = c"
  by (simp add: listen_step_def handle_message_def)

lemma handle_message_unknown_id:
  "map_of kvs ''id'' = Some (JInt i) \<Longrightarrow> map_of kvs ''method'' = None \<Longrightarrow>
   map_of (callbacks c) i = None \<Longrightarrow> handle_message c (Parsed (JObj kvs)) = (c, None)"
  by (simp add: handle_message_def handle_response_def handle_event_def py_contains_def
        int_key_def dict_get_def)

lemma listen_step_unknown_id:
  "map_of kvs ''id'' = Some (JInt i) \<Longrightarrow> map_of kvs ''method'' = None \<Longrightarrow>
   map_of (callbacks c) i = None \<Longrightarrow> listen_step c (Parsed (JObj kvs)) = c"
  by (simp add: listen_step_def handle_message_unknown_id)

lemma one_pending_eval:
  "callbacks one_pending = [(1, 0)] \<and> futures one_pending = [Pending] \<and>
   wire one_pending = [JObj [(''id'', JInt 1), (''method'', JStr ''Foo.bar''), (''params'', JObj [])]]"
  by (simp add: one_pending_def init_client_def connect_def connected_def send_begin_def Let_def)

text \<open>
  On a connection that never answers, \<^verbatim>\<open>send\<close> fails with \<^verbatim>\<open>TimeoutError\<close> and leaves the
  registered commands as they were before the call, and a reply that arrives with its id
  after the call has returned changes nothing.
\<close>

lemma send_no_reply:
  assumes "connected c"
  shows "snd (send c method params silence) = Inl TimeoutError \<and>
         callbacks (fst (send c method params silence)) =
           AList.delete (id_counter c + 1) (callbacks c) \<and>
         listen_step (fst (send c method params silence)) (reply (id_counter c + 1) r) =
           fst (send c method params silence)"
proof -
  let ?i = "id_counter c + 1" and ?a = "length (futures c)"
  obtain c1 where b: "send_begin c method params = (c1, Inr (?i, ?a))"
    and f1: "futures c1 = futures c @ [Pending]"
    and cb1: "callbacks c1 = AList.update ?i ?a (callbacks c)"
    using assms by (simp add: send_begin_def Let_def)
  have s: "send c method params silence =
      ((timeout_fires c1 ?a)\<lparr>callbacks := AList.delete ?i (callbacks (timeout_fires c1 ?a))\<rparr>,
       Inl TimeoutError)"
    using b f1 by (simp add: send_def silence_def send_resume_def Let_def)
  have cb: "callbacks (fst (send c method params silence)) = AList.delete ?i (callbacks c)"
    by (simp add: s timeout_fires_def cb1 delete_update_same)
  have "map_of (callbacks (fst (send c method params silence))) ?i = None"
    by (simp add: cb delete_conv')
  then have "listen_step (fst (send c method params silence)) (reply ?i r) =
      fst (send c method params silence)"
    using listen_step_unknown_id [of "[(''id'', JInt ?i), (''result'', r)]" ?i]
    by (simp add: reply_def)
  then show ?thesis using cb by (simp add: s)
qed

text \<open>
  C2 at a failing input. \<^verbatim>\<open>send("Foo.bar", {})\<close> on a fresh connection gets no reply before
  its timeout: the call fails with \<^verbatim>\<open>TimeoutError\<close> and no command stays registered. When
  the reply arrives after the call has returned, it is ignored and the receive loop goes
  on. When it arrives after the timer of \<^verbatim>\<open>wait_for\<close> has cancelled the future and before
  the caller has popped the id, \<^verbatim>\<open>_handle_message\<close> finds the id, \<^verbatim>\<open>set_result\<close> on the
  cancelled future raises \<^verbatim>\<open>InvalidStateError\<close>, and the receive loop ends with the client
  marked disconnected: the late reply is not ignored.
\<close>

theorem late_reply_before_pop_ends_receive_loop:
  "snd (send fresh_connection ''Foo.bar'' (Some []) silence) = Inl TimeoutError \<and>
   callbacks (fst (send fresh_connection ''Foo.bar'' (Some []) silence)) = [] \<and>
   listen_task (listen_step (fst (send fresh_connection ''Foo.bar'' (Some []) silence))
                  (reply 1 (JObj []))) = Some Running \<and>
   snd (send fresh_connection ''Foo.bar'' (Some []) ([], [reply 1 (JObj [])])) =
     Inl TimeoutError \<and>
   callbacks (fst (send fresh_connection ''Foo.bar'' (Some []) ([], [reply 1 (JObj [])]))) = [] \<and>
   snd (handle_message (timeout_fires one_pending 0) (reply 1 (JObj []))) =
     Some InvalidStateError \<and>
   listen_task (fst (send fresh_connection ''Foo.bar'' (Some []) ([], [reply 1 (JObj [])]))) =
     Some Finished \<and>
   \<not> connected (fst (send fresh_connection ''Foo.bar'' (Some []) ([], [reply 1 (JObj [])])))"
  by (simp add: fresh_connection_def one_pending_def silence_def init_client_def connect_def
        connected_def send_def send_begin_def send_resume_def timeout_fires_def Let_def
        reply_def listen_step_def handle_message_def handle_response_def handle_event_def
        py_contains_def int_key_def dict_get_def resolve_callback_def set_result_def)

section \<open>Messages that are not protocol messages\<close>

text \<open>
  C7 at a failing input. Text that is not JSON is discarded and the reply after it is
  processed. The message \<^verbatim>\<open>5\<close> is JSON but no protocol message: \<^verbatim>\<open>"id" in data\<close> raises
  \<^verbatim>\<open>TypeError\<close>, the receive loop ends and clears \<^verbatim>\<open>_connected\<close>, and the reply after it is
  never processed, so its command stays pending.
\<close>

theorem non_object_message_ends_receive_loop:
  "listen_task one_pending = Some Running \<and>
   handle_message one_pending (Parsed (JInt 5)) = (one_pending, Some TypeError) \<and>
   listen_task (listen_step one_pending (Parsed (JInt 5))) = Some Finished \<and>
   \<not> connected (listen_step one_pending (Parsed (JInt 5))) \<and>
   futures (listen_loop one_pending [reply 1 (JObj [])] ClosedOK) = [Result (JObj [])] \<and>
   futures (listen_loop one_pending [Garbage, reply 1 (JObj [])] ClosedOK) = [Result (JObj [])] \<and>
   futures (listen_loop one_pending [Parsed (JInt 5), reply 1 (JObj [])] ClosedOK) = [Pending]"
  by (simp add: one_pending_def init_client_def connect_def connected_def send_begin_def Let_def
        listen_step_def listen_end_def handle_message_def handle_response_def handle_event_def
        py_contains_def int_key_def dict_get_def reply_def resolve_callback_def set_result_def)

section \<open>Responses reach their own commands\<close>

lemma update_fresh: "k \<notin> fst ` set al \<Longrightarrow> AList.update k v al = al @ [(k, v)]"
  by (induction al) auto

lemma delete_filter: "AList.delete k al = filter (\<lambda>p. fst p \<noteq> k) al"
  by (induction al) auto

lemma listen_step_reply_known:
  assumes "listen_task c = Some Running" "map_of (callbacks c) i = Some a"
    "a < length (futures c)" "futures c ! a = Pending"
  shows "listen_step c (reply i r) =
           c\<lparr>callbacks := AList.delete i (callbacks c), futures := (futures c)[a := Result r]\<rparr>"
  using assms
  by (simp add: listen_step_def reply_def handle_message_def handle_response_def
        handle_event_def py_contains_def int_key_def dict_get_def resolve_callback_def
        set_result_def)

lemma listen_step_reply_unknown:
  "map_of (callbacks c) i = None \<Longrightarrow> listen_step c (reply i r) = c"
  by (simp add: reply_def listen_step_unknown_id)

lemma wf_lookup:
  "wf_client c \<Longrightarrow> (i, a) \<in> set (callbacks c) \<Longrightarrow>
   map_of (callbacks c) i = Some a \<and> a < length (futures c) \<and> futures c ! a = Pending"
  by (auto simp add: wf_client_def list_all_iff)

lemma wf_same_address:
  assumes "wf_client c" "(i, a) \<in> set (callbacks c)" "(j, a) \<in> set (callbacks c)"
  shows "i = j"
proof -
  have "inj_on snd (set (callbacks c))"
    using assms(1) by (simp add: wf_client_def distinct_map)
  then show ?thesis using inj_onD [of snd "set (callbacks c)" "(i, a)" "(j, a)"] assms(2,3) by simp
qed

lemma wf_after_reply:
  assumes wf: "wf_client c" and m: "map_of (callbacks c) i = Some a"
  shows "wf_client (c\<lparr>callbacks := AList.delete i (callbacks c),
                      futures := (futures c)[a := Result r]\<rparr>)"
proof -
  have ia: "(i, a) \<in> set (callbacks c)" using m by (rule map_of_SomeD)
  have d1: "distinct (map fst (AList.delete i (callbacks c)))"
    using wf by (simp add: wf_client_def distinct_delete)
  have d2: "distinct (map snd (AList.delete i (callbacks c)))"
    using wf by (simp add: wf_client_def delete_filter distinct_map_filter)
  have other: "\<And>j b. (j, b) \<in> set (AList.delete i (callbacks c)) \<Longrightarrow> b \<noteq> a"
  proof
    fix j b assume jb: "(j, b) \<in> set (AList.delete i (callbacks c))" and "b = a"
    then have "(j, a) \<in> set (callbacks c)" "j \<noteq> i" by (simp_all add: delete_filter)
    then show False using wf_same_address [OF wf ia] by simp
  qed
  have "list_all (\<lambda>(msg_id, b). msg_id \<le> id_counter c \<and> b < length (futures c) \<and>
            (futures c)[a := Result r] ! b = Pending) (AList.delete i (callbacks c))"
    unfolding list_all_iff
  proof (clarify)
    fix j b assume jb: "(j, b) \<in> set (AList.delete i (callbacks c))"
    then have "(j, b) \<in> set (callbacks c)" by (simp add: delete_filter)
    then have "j \<le> id_counter c \<and> b < length (futures c) \<and> futures c ! b = Pending"
      using wf by (auto simp add: wf_client_def list_all_iff)
    then show "j \<le> id_counter c \<and> b < length (futures c) \<and>
               (futures c)[a := Result r] ! b = Pending"
      using other [OF jb] by simp
  qed
  then show ?thesis using d1 d2 by (simp add: wf_client_def)
qed

lemma deliver_untouched:
  "wf_client c \<Longrightarrow> listen_task c = Some Running \<Longrightarrow> a \<notin> snd ` set (callbacks c) \<Longrightarrow>
   futures (deliver c rs) ! a = futures c ! a"
proof (induction rs arbitrary: c)
  case Nil then show ?case by simp
next
  case (Cons x rs)
  obtain j r where x: "x = (j, r)" by (cases x)
  show ?case
  proof (cases "map_of (callbacks c) j")
    case None
    then show ?thesis using x Cons by (simp add: listen_step_reply_unknown)
  next
    case (Some b)
    have jb: "(j, b) \<in> set (callbacks c)" using Some by (rule map_of_SomeD)
    have pend: "b < length (futures c) \<and> futures c ! b = Pending"
      using wf_lookup [OF Cons.prems(1) jb] by simp
    let ?c' = "c\<lparr>callbacks := AList.delete j (callbacks c),
                 futures := (futures c)[b := Result r]\<rparr>"
    have step: "listen_step c (reply j r) = ?c'"
      using listen_step_reply_known [OF Cons.prems(2) Some] pend by simp
    have wf': "wf_client ?c'" by (rule wf_after_reply [OF Cons.prems(1) Some])
    have ne: "a \<noteq> b" using Cons.prems(3) jb by force
    have notin: "a \<notin> snd ` set (callbacks ?c')"
      using Cons.prems(3) by (auto simp add: delete_filter)
    have "futures (deliver ?c' rs) ! a = futures ?c' ! a"
      using Cons.IH [OF wf' _ notin] Cons.prems(2) by simp
    then show ?thesis using x step ne by simp
  qed
qed

lemma deliver_registered:
  "wf_client c \<Longrightarrow> listen_task c = Some Running \<Longrightarrow> (i, a) \<in> set (callbacks c) \<Longrightarrow>
   futures (deliver c rs) ! a = (case map_of rs i of None \<Rightarrow> Pending | Some r \<Rightarrow> Result r)"
proof (induction rs arbitrary: c)
  case Nil
  then show ?case using wf_lookup [of c i a] by simp
next
  case (Cons x rs)
  obtain j r where x: "x = (j, r)" by (cases x)
  have look: "map_of (callbacks c) i = Some a \<and> a < length (futures c) \<and> futures c ! a = Pending"
    using wf_lookup [OF Cons.prems(1) Cons.prems(3)] .
  show ?case
  proof (cases "map_of (callbacks c) j")
    case None
    then have "j \<noteq> i" using look by auto
    then show ?thesis using x None Cons by (simp add: listen_step_reply_unknown)
  next
    case (Some b)
    have jb: "(j, b) \<in> set (callbacks c)" using Some by (rule map_of_SomeD)
    have pend: "b < length (futures c) \<and> futures c ! b = Pending"
      using wf_lookup [OF Cons.prems(1) jb] by simp
    let ?c' = "c\<lparr>callbacks := AList.delete j (callbacks c),
                 futures := (futures c)[b := Result r]\<rparr>"
    have step: "listen_step c (reply j r) = ?c'"
      using listen_step_reply_known [OF Cons.prems(2) Some] pend by simp
    have wf': "wf_client ?c'" by (rule wf_after_reply [OF Cons.prems(1) Some])
    have run': "listen_task ?c' = Some Running" using Cons.prems(2) by simp
    show ?thesis
    proof (cases "j = i")
      case True
      then have ab: "a = b" using Some look by simp
      have notin: "a \<notin> snd ` set (callbacks ?c')"
      proof
        assume "a \<in> snd ` set (callbacks ?c')"
        then obtain k where k: "(k, a) \<in> set (callbacks c)" "k \<noteq> j"
          by (auto simp add: delete_filter)
        then show False using wf_same_address [OF Cons.prems(1) Cons.prems(3) k(1)] True by simp
      qed
      have "futures (deliver ?c' rs) ! a = futures ?c' ! a"
        by (rule deliver_untouched [OF wf' run' notin])
      then show ?thesis using x step True ab pend by simp
    next
      case False
      then have "(i, a) \<in> set (callbacks ?c')"
        using Cons.prems(3) by (simp add: delete_filter)
      then have "futures (deliver ?c' rs) ! a =
                   (case map_of rs i of None \<Rightarrow> Pending | Some r \<Rightarrow> Result r)"
        by (rule Cons.IH [OF wf' run'])
      then show ?thesis using x step False by simp
    qed
  qed
qed

lemma send_begin_wf:
  assumes "connected c" "wf_client c" "send_begin c m p = (c1, res)"
  shows "\<exists>t. res = Inr t \<and> t \<in> set (callbacks c1) \<and> set (callbacks c) \<subseteq> set (callbacks c1) \<and>
           wf_client c1 \<and> connected c1 \<and> listen_task c1 = listen_task c"
proof -
  let ?i = "id_counter c + 1" and ?a = "length (futures c)"
  have fresh: "?i \<notin> fst ` set (callbacks c)"
    using assms(2) by (force simp add: wf_client_def list_all_iff)
  have cb: "AList.update ?i ?a (callbacks c) = callbacks c @ [(?i, ?a)]"
    by (rule update_fresh [OF fresh])
  have afresh: "?a \<notin> snd ` set (callbacks c)"
    using assms(2) by (force simp add: wf_client_def list_all_iff)
  have c1: "c1 = c\<lparr>id_counter := ?i, futures := futures c @ [Pending],
                   callbacks := callbacks c @ [(?i, ?a)],
                   wire := wire c @ [JObj [(''id'', JInt ?i), (''method'', JStr m),
                            (''params'', JObj (case p of None \<Rightarrow> [] | Some kvs \<Rightarrow> kvs))]]\<rparr>"
    and res: "res = Inr (?i, ?a)"
    using assms(1,3) cb by (simp_all add: send_begin_def Let_def)
  have wf1: "wf_client c1"
    using assms(2) fresh afresh
    by (auto simp add: c1 wf_client_def list_all_iff nth_append)
  show ?thesis using res wf1 assms(1) by (auto simp add: c1 connected_def)
qed

lemma send_all_wf:
  "connected c \<Longrightarrow> wf_client c \<Longrightarrow> send_all c reqs = (c1, ts) \<Longrightarrow>
   length ts = length reqs \<and> set ts \<subseteq> set (callbacks c1) \<and> set (callbacks c) \<subseteq> set (callbacks c1) \<and>
   wf_client c1 \<and> connected c1 \<and> listen_task c1 = listen_task c"
proof (induction reqs arbitrary: c ts c1)
  case Nil then show ?case by simp
next
  case (Cons x reqs)
  obtain m p where x: "x = (m, p)" by (cases x)
  obtain c' res where sb: "send_begin c m p = (c', res)" by (cases "send_begin c m p")
  obtain t where t: "res = Inr t" "t \<in> set (callbacks c')" "set (callbacks c) \<subseteq> set (callbacks c')"
      "wf_client c'" "connected c'" "listen_task c' = listen_task c"
    using send_begin_wf [OF Cons.prems(1,2) sb] by blast
  obtain c2 ts' where sa: "send_all c' reqs = (c2, ts')" by (cases "send_all c' reqs")
  have ih: "length ts' = length reqs \<and> set ts' \<subseteq> set (callbacks c2) \<and>
        set (callbacks c') \<subseteq> set (callbacks c2) \<and>
        wf_client c2 \<and> connected c2 \<and> listen_task c2 = listen_task c'"
    by (rule Cons.IH [OF t(5) t(4) sa])
  have "c1 = c2" "ts = t # ts'" using Cons.prems(3) x sb sa t(1) by simp_all
  then show ?case using ih t by auto
qed

lemma two_pending_send_all:
  "send_all fresh_connection
     [(''Page.enable'', None), (''Page.navigate'', Some [(''url'', JStr ''about:blank'')])] =
   (two_pending, [(1, 0), (2, 1)])"
  by (simp add: fresh_connection_def two_pending_def init_client_def connect_def connected_def
        send_begin_def Let_def)

lemma fresh_connection_ok:
  "connected fresh_connection \<and> listen_task fresh_connection = Some Running \<and>
   wf_client fresh_connection"
  by (simp add: fresh_connection_def init_client_def connect_def connected_def Let_def
        wf_client_def)

text \<open>
  C1. On a connected client whose receive loop runs, let \<open>n\<close> calls of \<^verbatim>\<open>send\<close> be
  outstanding together. Whatever sequence of successful responses arrives, in whatever
  order and with whatever other ids among them, the future of each call holds the result
  of the first response that carries the call's own id, and is still pending if there is
  none; the call returns exactly that result. A response whose id is not registered
  leaves the client as it was.
\<close>

theorem concurrent_sends_resolve_own_response:
  assumes "connected c" and "listen_task c = Some Running" and "wf_client c"
    and "send_all c reqs = (c1, tickets)"
  shows "length tickets = length reqs \<and>
     (\<forall>(msg_id, a) \<in> set tickets.
        futures (deliver c1 rs) ! a =
          (case map_of rs msg_id of None \<Rightarrow> Pending | Some r \<Rightarrow> Result r) \<and>
        (\<forall>r. map_of rs msg_id = Some r \<longrightarrow>
           send_resume (deliver c1 rs) msg_id a = Some (deliver c1 rs, Inr r))) \<and>
     (\<forall>msg_id r. map_of (callbacks c0) msg_id = None \<longrightarrow> listen_step c0 (reply msg_id r) = c0)"
proof -
  have sa: "length tickets = length reqs \<and> set tickets \<subseteq> set (callbacks c1) \<and>
     set (callbacks c) \<subseteq> set (callbacks c1) \<and>
     wf_client c1 \<and> connected c1 \<and> listen_task c1 = listen_task c"
    by (rule send_all_wf [OF assms(1,3,4)])
  have each: "\<forall>(msg_id, a) \<in> set tickets.
        futures (deliver c1 rs) ! a =
          (case map_of rs msg_id of None \<Rightarrow> Pending | Some r \<Rightarrow> Result r) \<and>
        (\<forall>r. map_of rs msg_id = Some r \<longrightarrow>
           send_resume (deliver c1 rs) msg_id a = Some (deliver c1 rs, Inr r))"
  proof (clarify)
    fix i a assume "(i, a) \<in> set tickets"
    then have "(i, a) \<in> set (callbacks c1)" using sa by auto
    then have f: "futures (deliver c1 rs) ! a =
          (case map_of rs i of None \<Rightarrow> Pending | Some r \<Rightarrow> Result r)"
      using deliver_registered [of c1 i a rs] sa assms(2) by simp
    then show "futures (deliver c1 rs) ! a =
          (case map_of rs i of None \<Rightarrow> Pending | Some r \<Rightarrow> Result r) \<and>
        (\<forall>r. map_of rs i = Some r \<longrightarrow>
           send_resume (deliver c1 rs) i a = Some (deliver c1 rs, Inr r))"
      by (simp add: send_resume_def)
  qed
  show ?thesis using sa each listen_step_reply_unknown by blast
qed

theorem concurrent_sends_resolve_own_response_witness:
  "connected fresh_connection \<and> listen_task fresh_connection = Some Running \<and>
   wf_client fresh_connection \<and>
   send_all fresh_connection
     [(''Page.enable'', None), (''Page.navigate'', Some [(''url'', JStr ''about:blank'')])] =
   (two_pending, [(1, 0), (2, 1)]) \<and>
   futures (deliver two_pending [(2, JObj [(''frameId'', JStr ''F'')]), (7, JNull), (1, JObj [])]) ! 0
     = Result (JObj []) \<and>
   futures (deliver two_pending [(2, JObj [(''frameId'', JStr ''F'')]), (7, JNull), (1, JObj [])]) ! 1
     = Result (JObj [(''frameId'', JStr ''F'')]) \<and>
   listen_step fresh_connection (reply 7 JNull) = fresh_connection"
proof -
  have cb: "map_of (callbacks fresh_connection) 7 = None"
    by (simp add: fresh_connection_def init_client_def connect_def connected_def Let_def)
  show ?thesis
    using fresh_connection_ok two_pending_send_all cb
      concurrent_sends_resolve_own_response [where c = fresh_connection
        and ?c1.0 = two_pending and tickets = "[(1, 0), (2, 1)]" and ?c0.0 = fresh_connection
        and reqs = "[(''Page.enable'', None), (''Page.navigate'', Some [(''url'', JStr ''about:blank'')])]"
        and rs = "[(2, JObj [(''frameId'', JStr ''F'')]), (7, JNull), (1, JObj [])]"]
    by simp
qed

section \<open>wait_for_event completes on the first match\<close>

lemma below_hid: "below n h \<Longrightarrow> n \<le> a \<Longrightarrow> hid h \<noteq> Inr a"
  by (cases h) auto

lemma mine_append: "mine a (ts @ us) = mine a ts @ mine a us"
  by (simp add: mine_def)

lemma mine_dispatch:
  "mine a (map (\<lambda>h. (h, p)) hs) = map (\<lambda>h. p) (filter (\<lambda>x. hid x = Inr a) hs)"
  by (induction hs) (simp_all add: mine_def)

lemma listen_step_event:
  "listen_task c = Some Running \<Longrightarrow>
   listen_step c (event_msg name params) =
     (case map_of (event_handlers c) name of
        None \<Rightarrow> c
      | Some hs \<Rightarrow>
          c\<lparr>tasks := tasks c @ map (\<lambda>h. (h, case params of None \<Rightarrow> JObj [] | Some p \<Rightarrow> p)) hs\<rparr>)"
  by (simp add: listen_step_def handle_event_msg split: option.splits)

lemma waiting_event:
  assumes w: "waiting a ev pr c"
  shows "waiting a ev pr (arrive c (Event name params)) \<and>
         view a ev pr (arrive c (Event name params)) xs = view a ev pr c (Event name params # xs)"
proof (cases "map_of (event_handlers c) name")
  case None
  then have ne: "name \<noteq> ev" using w by (auto simp add: waiting_def)
  have "arrive c (Event name params) = c"
    using w None by (simp add: waiting_def listen_step_event)
  then show ?thesis using w ne by (simp add: view_def)
next
  case (Some hs)
  let ?p = "case params of None \<Rightarrow> JObj [] | Some p \<Rightarrow> p"
  let ?c' = "c\<lparr>tasks := tasks c @ map (\<lambda>h. (h, ?p)) hs\<rparr>"
  have step: "arrive c (Event name params) = ?c'"
    using w Some by (simp add: waiting_def listen_step_event)
  have filt: "filter (\<lambda>x. hid x = Inr a) hs = (if name = ev then [Waiter a pr] else [])"
    using w Some by (simp add: waiting_def)
  have new: "\<forall>x \<in> set hs. hid x = Inr a \<longrightarrow> x = Waiter a pr"
  proof (intro ballI impI)
    fix x assume "x \<in> set hs" "hid x = Inr a"
    then have "x \<in> set (filter (\<lambda>x. hid x = Inr a) hs)" by simp
    then show "x = Waiter a pr" using filt by (simp split: if_splits)
  qed
  have w': "waiting a ev pr ?c'"
    using w new by (auto simp add: waiting_def)
  have m: "mine a (tasks c @ map (\<lambda>h. (h, ?p)) hs) =
      mine a (tasks c) @ (if name = ev then [?p] else [])"
    using filt by (simp add: mine_append mine_dispatch)
  have "view a ev pr ?c' xs = view a ev pr c (Event name params # xs)"
    by (simp add: view_def m)
  then show ?thesis using step w' by simp
qed

lemma outcome_step:
  "outcome pr (if accepts pr p \<and> f = Pending then Result p else f) ps = outcome pr f (p # ps)"
  by (cases f) (simp_all add: outcome_def)

lemma waiting_tick:
  assumes w: "waiting a ev pr c"
  shows "waiting a ev pr (arrive c Tick) \<and> view a ev pr (arrive c Tick) xs = view a ev pr c xs"
proof (cases "tasks c")
  case Nil
  then show ?thesis using w by (simp add: run_task_def)
next
  case (Cons t ts)
  obtain h p where t: "t = (h, p)" by (cases t)
  have la: "a < length (futures c)" using w by (simp add: waiting_def)
  have rest: "\<forall>t \<in> set ts. hid (fst t) = Inr a \<longrightarrow> fst t = Waiter a pr"
    using w Cons by (simp add: waiting_def)
  show ?thesis
  proof (cases "hid h = Inr a")
    case True
    then have h: "h = Waiter a pr" using w Cons t by (simp add: waiting_def)
    let ?f = "if accepts pr p \<and> futures c ! a = Pending then Result p else futures c ! a"
    have fut: "futures (run_task c) ! a = ?f" and tk: "tasks (run_task c) = ts"
      and len: "length (futures (run_task c)) = length (futures c)"
      and same: "listen_task (run_task c) = listen_task c"
               "event_handlers (run_task c) = event_handlers c"
      using Cons t h la by (simp_all add: run_task_def)
    have w': "waiting a ev pr (run_task c)"
      using w rest by (simp add: waiting_def tk len same)
    have "mine a (tasks c) = p # mine a ts" using Cons t True by (simp add: mine_def)
    then have "view a ev pr (run_task c) xs = view a ev pr c xs"
      using outcome_step [of pr p "futures c ! a" "mine a ts @ seen ev xs"]
      by (simp add: view_def fut tk)
    then show ?thesis using w' by simp
  next
    case False
    have fut: "futures (run_task c) ! a = futures c ! a" and tk: "tasks (run_task c) = ts"
      and len: "length (futures (run_task c)) = length (futures c)"
      and same: "listen_task (run_task c) = listen_task c"
               "event_handlers (run_task c) = event_handlers c"
      using Cons t False by (cases h; simp add: run_task_def)+
    have w': "waiting a ev pr (run_task c)"
      using w rest by (simp add: waiting_def tk len same)
    have "mine a (tasks c) = mine a ts" using Cons t False by (simp add: mine_def)
    then have "view a ev pr (run_task c) xs = view a ev pr c xs"
      by (simp add: view_def fut tk)
    then show ?thesis using w' by simp
  qed
qed

lemma waiting_arrivals:
  "waiting a ev pr c \<Longrightarrow>
   waiting a ev pr (arrivals c xs) \<and> view a ev pr (arrivals c xs) ys = view a ev pr c (xs @ ys)"
proof (induction xs arbitrary: c)
  case Nil then show ?case by simp
next
  case (Cons x xs)
  show ?case
  proof (cases x)
    case (Event name params)
    then show ?thesis
      using waiting_event [OF Cons.prems, of name params "xs @ ys"]
        Cons.IH [of "arrive c x"] by simp
  next
    case Tick
    then show ?thesis
      using waiting_tick [OF Cons.prems, of "(xs @ ys)"] Cons.IH [of "arrive c x"]
      by (simp add: view_def)
  qed
qed

lemma length_tasks_run_task: "length (tasks (run_task c)) = length (tasks c) - 1"
proof (cases "tasks c")
  case Nil then show ?thesis by (simp add: run_task_def)
next
  case (Cons t ts)
  obtain h p where "t = (h, p)" by (cases t)
  then show ?thesis using Cons by (cases h) (simp_all add: run_task_def)
qed

lemma tasks_ticks:
  "length (tasks c) \<le> n \<Longrightarrow> tasks (arrivals c (replicate n Tick)) = []"
proof (induction n arbitrary: c)
  case 0 then show ?case by simp
next
  case (Suc n)
  have "length (tasks (run_task c)) \<le> n" using Suc.prems by (simp add: length_tasks_run_task)
  then show ?case using Suc.IH [of "run_task c"] by simp
qed

lemma tasks_drain: "tasks (drain c) = []"
  by (simp add: drain_def tasks_ticks)

lemma seen_ticks: "seen ev (replicate n Tick) = []"
  by (induction n) simp_all

lemma seen_append: "seen ev (xs @ ys) = seen ev xs @ seen ev ys"
  by (induction ev xs rule: seen.induct) simp_all

lemma outcome_Nil: "outcome pr f [] = f"
  by (cases f) (simp_all add: outcome_def)

lemma outcome_done: "f \<noteq> Pending \<Longrightarrow> outcome pr f ps = f"
  by (cases f) (simp_all add: outcome_def)

lemma resume_outcome:
  "futures c ! a = outcome pr Pending ps \<Longrightarrow> futures c ! a \<noteq> Pending \<or> find (accepts pr) ps = None \<Longrightarrow>
   snd (wait_resume c ev h a) = first_match pr ps"
  by (cases "find (accepts pr) ps") (auto simp add: outcome_def wait_resume_def first_match_def)

lemma handlers_below:
  "waiters_below c \<Longrightarrow> map_of (event_handlers c) e = Some hs \<Longrightarrow>
   filter (\<lambda>x. hid x = Inr (length (futures c))) hs = []"
proof -
  assume wb: "waiters_below c" and m: "map_of (event_handlers c) e = Some hs"
  have "(e, hs) \<in> set (event_handlers c)" using m by (rule map_of_SomeD)
  then have "\<forall>x \<in> set hs. below (length (futures c)) x"
    using wb by (auto simp add: waiters_below_def list_all_iff)
  then have "\<forall>x \<in> set hs. hid x \<noteq> Inr (length (futures c))"
    using below_hid by blast
  then show ?thesis by (simp add: filter_empty_conv)
qed

lemma tasks_below:
  "waiters_below c \<Longrightarrow> t \<in> set (tasks c) \<Longrightarrow> hid (fst t) \<noteq> Inr (length (futures c))"
proof -
  assume wb: "waiters_below c" and t: "t \<in> set (tasks c)"
  have "below (length (futures c)) (fst t)"
    using wb t by (cases t) (auto simp add: waiters_below_def list_all_iff)
  then show ?thesis using below_hid by blast
qed

lemma wait_begin_waiting:
  assumes run: "listen_task c = Some Running" and wb: "waiters_below c"
    and beg: "wait_begin c ev pr = (c1, h, a)"
  shows "h = Waiter a pr \<and> waiting a ev pr c1 \<and> mine a (tasks c1) = [] \<and>
         futures c1 ! a = Pending"
proof -
  let ?hs0 = "case map_of (event_handlers c) ev of None \<Rightarrow> [] | Some hs \<Rightarrow> hs"
  have a: "a = length (futures c)" and h: "h = Waiter a pr"
    and c1: "c1 = c\<lparr>futures := futures c @ [Pending],
                    event_handlers := AList.update ev (?hs0 @ [h]) (event_handlers c)\<rparr>"
    using beg by (auto simp add: wait_begin_def on_def Let_def)
  have f0: "filter (\<lambda>x. hid x = Inr a) ?hs0 = []"
    using handlers_below [OF wb, of ev] a by (cases "map_of (event_handlers c) ev") simp_all
  have hl: "\<forall>e hs. map_of (event_handlers c1) e = Some hs \<longrightarrow>
          filter (\<lambda>x. hid x = Inr a) hs = (if e = ev then [Waiter a pr] else [])"
  proof (intro allI impI)
    fix e hs assume m: "map_of (event_handlers c1) e = Some hs"
    show "filter (\<lambda>x. hid x = Inr a) hs = (if e = ev then [Waiter a pr] else [])"
    proof (cases "e = ev")
      case True
      then have "hs = ?hs0 @ [h]" using m by (simp add: c1 update_conv')
      then show ?thesis using True f0 h by simp
    next
      case False
      then have "map_of (event_handlers c) e = Some hs" using m by (simp add: c1 update_conv')
      then show ?thesis using False handlers_below [OF wb, of e hs] a by simp
    qed
  qed
  have tk: "\<forall>t \<in> set (tasks c1). hid (fst t) \<noteq> Inr a"
    using tasks_below [OF wb] a by (simp add: c1)
  have "mine a (tasks c1) = []" using tk by (simp add: mine_def filter_empty_conv)
  moreover have "waiting a ev pr c1"
    using hl tk run by (simp add: waiting_def) (simp add: c1 a update_conv')
  moreover have "futures c1 ! a = Pending" by (simp add: c1 a)
  ultimately show ?thesis using h by simp
qed

lemma unsubscribedI:
  "(\<And>e hs. map_of (event_handlers c) e = Some hs \<Longrightarrow> \<forall>x \<in> set hs. hid x \<noteq> hid h) \<Longrightarrow>
   unsubscribed h c"
  by (simp add: unsubscribed_def list_all_iff split: option.splits)

lemma event_handlers_wait_resume:
  "event_handlers (fst (wait_resume c ev h a)) = event_handlers (off c ev (Some h))"
  by (simp add: wait_resume_def off_def split: future.splits option.splits)

lemma waiting_unsubscribed:
  assumes w: "waiting a ev pr c"
  shows "unsubscribed (Waiter a pr) (fst (wait_resume c ev (Waiter a pr) a))"
proof (rule unsubscribedI)
  fix e hs
  assume m: "map_of (event_handlers (fst (wait_resume c ev (Waiter a pr) a))) e = Some hs"
  obtain hs0 where hs0: "map_of (event_handlers c) ev = Some hs0"
    using w by (auto simp add: waiting_def)
  have eh: "event_handlers (fst (wait_resume c ev (Waiter a pr) a)) =
      AList.update ev (filter (\<lambda>x. hid x \<noteq> Inr a) hs0) (event_handlers c)"
    using hs0 by (simp add: event_handlers_wait_resume off_def)
  show "\<forall>x \<in> set hs. hid x \<noteq> hid (Waiter a pr)"
  proof (cases "e = ev")
    case True
    then have "hs = filter (\<lambda>x. hid x \<noteq> Inr a) hs0" using m by (simp add: eh update_conv')
    then show ?thesis by simp
  next
    case False
    then have m0: "map_of (event_handlers c) e = Some hs" using m by (simp add: eh update_conv')
    then have "filter (\<lambda>x. hid x = Inr a) hs = []" using w False by (simp add: waiting_def)
    then show ?thesis by (simp add: filter_empty_conv)
  qed
qed

text \<open>
  C6. Let \<^verbatim>\<open>wait_for_event(ev, predicate)\<close> subscribe on a client whose receive loop runs.
  For every stream of events and every schedule of the handler tasks, once the queued
  tasks have run the call returns the parameters of the first event named \<open>ev\<close> that the
  predicate accepts (every event, when there is no predicate), whatever events of that
  name came before it, and fails with \<^verbatim>\<open>TimeoutError\<close> if there is none. Whenever the future
  is done the call returns that same result; while it is pending, resuming is the timeout.
  Whenever the call ends, no list of handlers holds its temporary handler any more.
\<close>

theorem wait_for_event_first_match:
  assumes "listen_task c = Some Running" and "waiters_below c"
    and "wait_begin c ev pr = (c1, h, a)"
  shows "snd (wait_resume (drain (arrivals c1 xs)) ev h a) = first_match pr (seen ev xs) \<and>
     (futures (arrivals c1 xs) ! a \<noteq> Pending \<longrightarrow>
        snd (wait_resume (arrivals c1 xs) ev h a) = first_match pr (seen ev xs)) \<and>
     (futures (arrivals c1 xs) ! a = Pending \<longrightarrow>
        snd (wait_resume (arrivals c1 xs) ev h a) = Inl TimeoutError) \<and>
     unsubscribed h (fst (wait_resume (arrivals c1 xs) ev h a)) \<and>
     unsubscribed h (fst (wait_resume (drain (arrivals c1 xs)) ev h a))"
proof -
  let ?c2 = "arrivals c1 xs" and ?n = "length (tasks (arrivals c1 xs))"
  have b: "h = Waiter a pr" "waiting a ev pr c1" "mine a (tasks c1) = []"
      "futures c1 ! a = Pending"
    using wait_begin_waiting [OF assms] by simp_all
  have v1: "\<And>ys. view a ev pr c1 ys = outcome pr Pending (seen ev ys)"
    using b by (simp add: view_def)
  have w2: "waiting a ev pr ?c2" and v2: "view a ev pr ?c2 [] = outcome pr Pending (seen ev xs)"
    using waiting_arrivals [OF b(2), of xs "[]"] v1 [of xs] by simp_all
  have d: "drain ?c2 = arrivals c1 (xs @ replicate ?n Tick)"
  proof -
    have "\<And>c ys zs. arrivals c (ys @ zs) = arrivals (arrivals c ys) zs"
    proof -
      fix c :: client and ys zs :: "arrival list"
      show "arrivals c (ys @ zs) = arrivals (arrivals c ys) zs"
        by (induction ys arbitrary: c) simp_all
    qed
    then show ?thesis by (simp add: drain_def)
  qed
  have w3: "waiting a ev pr (drain ?c2)"
    and v3: "view a ev pr (drain ?c2) [] = outcome pr Pending (seen ev xs)"
    using waiting_arrivals [OF b(2), of "xs @ replicate ?n Tick" "[]"]
      v1 [of "xs @ replicate ?n Tick"]
    by (simp_all add: d seen_append seen_ticks)
  have f3: "futures (drain ?c2) ! a = outcome pr Pending (seen ev xs)"
    using v3 by (simp add: view_def tasks_drain mine_def outcome_Nil)
  have r3: "snd (wait_resume (drain ?c2) ev h a) = first_match pr (seen ev xs)"
  proof (rule resume_outcome [OF f3])
    show "futures (drain ?c2) ! a \<noteq> Pending \<or> find (accepts pr) (seen ev xs) = None"
      using f3 by (cases "find (accepts pr) (seen ev xs)") (simp_all add: outcome_def)
  qed
  have r2: "futures ?c2 ! a \<noteq> Pending \<longrightarrow>
        snd (wait_resume ?c2 ev h a) = first_match pr (seen ev xs)"
  proof
    assume np: "futures ?c2 ! a \<noteq> Pending"
    then have eq: "futures ?c2 ! a = outcome pr Pending (seen ev xs)"
      using v2 by (simp add: view_def outcome_done)
    show "snd (wait_resume ?c2 ev h a) = first_match pr (seen ev xs)"
      using resume_outcome [OF eq] np by simp
  qed
  have t2: "futures ?c2 ! a = Pending \<longrightarrow> snd (wait_resume ?c2 ev h a) = Inl TimeoutError"
    by (simp add: wait_resume_def)
  show ?thesis
    using r3 r2 t2 waiting_unsubscribed [OF w2] waiting_unsubscribed [OF w3] b(1) by simp
qed

theorem wait_for_event_first_match_witness:
  "listen_task fresh_connection = Some Running \<and> waiters_below fresh_connection \<and>
   snd (wait_resume
          (drain (arrivals (fst (wait_begin fresh_connection ''Page.loadEventFired''
                                   (Some wants_two))) load_events))
          ''Page.loadEventFired'' (Waiter 0 (Some wants_two)) 0) = Inr (JObj [(''n'', JInt 2)]) \<and>
   snd (wait_resume
          (drain (arrivals (fst (wait_begin fresh_connection ''Page.loadEventFired'' None))
                    load_events))
          ''Page.loadEventFired'' (Waiter 0 None) 0) = Inr (JObj [(''n'', JInt 1)]) \<and>
   snd (wait_resume
          (drain (arrivals (fst (wait_begin fresh_connection ''Page.domContentEventFired'' None))
                    load_events))
          ''Page.domContentEventFired'' (Waiter 0 None) 0) = Inl TimeoutError"
proof -
  have r: "listen_task fresh_connection = Some Running" and wb: "waiters_below fresh_connection"
    and f: "futures fresh_connection = []"
    by (simp_all add: fresh_connection_def init_client_def connect_def connected_def Let_def
          waiters_below_def)
  have beg: "\<And>ev pr. wait_begin fresh_connection ev pr =
      (fst (wait_begin fresh_connection ev pr), Waiter 0 pr, 0)"
    by (simp add: wait_begin_def Let_def f)
  have s1: "first_match (Some wants_two) (seen ''Page.loadEventFired'' load_events) =
      Inr (JObj [(''n'', JInt 2)])"
    by (simp add: load_events_def first_match_def accepts_def wants_two_def)
  have s2: "first_match None (seen ''Page.loadEventFired'' load_events) =
      Inr (JObj [(''n'', JInt 1)])"
    by (simp add: load_events_def first_match_def accepts_def)
  have s3: "first_match None (seen ''Page.domContentEventFired'' load_events) = Inl TimeoutError"
    by (simp add: load_events_def first_match_def accepts_def)
  show ?thesis
    using r wb s1 s2 s3
      wait_for_event_first_match [OF r wb beg, of "''Page.loadEventFired''" "Some wants_two" load_events]
      wait_for_event_first_match [OF r wb beg, of "''Page.loadEventFired''" None load_events]
      wait_for_event_first_match [OF r wb beg, of "''Page.domContentEventFired''" None load_events]
    by simp
qed

section \<open>enable_domain\<close>

lemma wire_listen_step: "wire (listen_step c m) = wire c"
proof -
  obtain c1 r where h: "handle_message c m = (c1, r)" by (cases "handle_message c m")
  have "frame c c1" using frame_handle_message [of c m] h by simp
  then have "wire c1 = wire c" by (simp add: frame_def)
  then show ?thesis using h by (cases r) (simp_all add: listen_step_def)
qed

lemma wire_receive: "wire (receive c ms) = wire c"
  by (induction ms arbitrary: c) (simp_all add: wire_listen_step)

lemma wire_timeout_fires: "wire (timeout_fires c a) = wire c"
  by (simp add: timeout_fires_def)

lemma wire_send_resume: "send_resume c i a = Some (c1, r) \<Longrightarrow> wire c1 = wire c"
  by (auto simp add: send_resume_def split: future.splits)

lemma wire_send:
  "wire (fst (send c method params t)) =
     wire c @ (if connected c
               then [JObj [(''id'', JInt (id_counter c + 1)), (''method'', JStr method),
                           (''params'', JObj (case params of None \<Rightarrow> [] | Some kvs \<Rightarrow> kvs))]]
               else [])"
proof (cases "connected c")
  case False
  then show ?thesis by (simp add: send_def send_begin_def)
next
  case True
  let ?i = "id_counter c + 1" and ?a = "length (futures c)"
  obtain c1 where c1: "send_begin c method params = (c1, Inr (?i, ?a))"
    and w1: "wire c1 = wire c @ [JObj [(''id'', JInt ?i), (''method'', JStr method),
                           (''params'', JObj (case params of None \<Rightarrow> [] | Some kvs \<Rightarrow> kvs))]]"
    using True by (simp add: send_begin_def Let_def)
  let ?c2 = "receive c1 (fst t)"
  have "wire (fst (send c method params t)) = wire c1"
  proof (cases "send_resume ?c2 ?i ?a")
    case None
    then show ?thesis
      by (simp add: send_def c1 Let_def wire_receive wire_timeout_fires)
  next
    case (Some x)
    obtain c4 r where x: "x = (c4, r)" by (cases x)
    have "wire c4 = wire ?c2" using Some x wire_send_resume [of ?c2 ?i ?a c4 r] by simp
    then show ?thesis using Some x by (simp add: send_def c1 Let_def wire_receive)
  qed
  then show ?thesis using True w1 by simp
qed

lemma enable_domain_enabled:
  "d \<in> enabled_domains b \<Longrightarrow> enable_domain b d t = (b, Inr ())"
  by (simp add: enable_domain_def)

lemma enable_domain_success:
  "snd (enable_domain b d t) = Inr () \<Longrightarrow> d \<in> enabled_domains (fst (enable_domain b d t))"
  by (cases "send (cdp b) (d @ ''.enable'') None t")
     (auto simp add: enable_domain_def split: sum.splits if_splits)

lemma enable_domain_failure:
  "snd (enable_domain b d t) = Inl e \<Longrightarrow>
   d \<notin> enabled_domains b \<and> enabled_domains (fst (enable_domain b d t)) = enabled_domains b"
  by (cases "send (cdp b) (d @ ''.enable'') None t")
     (auto simp add: enable_domain_def split: sum.splits if_splits)

lemma enable_domain_not_connected:
  "d \<notin> enabled_domains b \<Longrightarrow> \<not> connected (cdp b) \<Longrightarrow>
   enable_domain b d t = (b, Inl RuntimeError)"
  by (simp add: enable_domain_def send_def send_begin_def)

lemma enable_domain_grows:
  "enabled_domains b \<subseteq> enabled_domains (fst (enable_domain b d t))"
  by (cases "send (cdp b) (d @ ''.enable'') None t")
     (auto simp add: enable_domain_def split: sum.splits if_splits)

lemma enable_domain_wire:
  "wire (cdp (fst (enable_domain b d t))) =
     wire (cdp b) @ (if d \<notin> enabled_domains b \<and> connected (cdp b)
                     then [enable_message (id_counter (cdp b) + 1) d] else [])"
proof (cases "d \<in> enabled_domains b")
  case True
  then show ?thesis by (simp add: enable_domain_def)
next
  case False
  obtain c1 r where s: "send (cdp b) (d @ ''.enable'') None t = (c1, r)"
    by (cases "send (cdp b) (d @ ''.enable'') None t")
  have "wire c1 = wire (cdp b) @ (if connected (cdp b)
               then [enable_message (id_counter (cdp b) + 1) d] else [])"
    using wire_send [of "cdp b" "d @ ''.enable''" None t] s
    by (simp add: enable_message_def)
  then show ?thesis using False s by (cases r) (simp_all add: enable_domain_def)
qed

lemma navigate_grows: "enabled_domains b \<subseteq> enabled_domains (fst (navigate b url w t1 t2 xs))"
proof -
  obtain b1 r where e: "enable_domain b ''Page'' t1 = (b1, r)"
    by (cases "enable_domain b ''Page'' t1")
  have g: "enabled_domains b \<subseteq> enabled_domains b1"
    using enable_domain_grows [of b "''Page''" t1] e by simp
  have "enabled_domains (fst (navigate b url w t1 t2 xs)) = enabled_domains b1"
    using e by (simp add: navigate_def Let_def split: sum.splits prod.splits)
  then show ?thesis using g by simp
qed

lemma evaluate_grows: "enabled_domains b \<subseteq> enabled_domains (fst (evaluate b x t1 t2))"
proof -
  obtain b1 r where e: "enable_domain b ''Runtime'' t1 = (b1, r)"
    by (cases "enable_domain b ''Runtime'' t1")
  have g: "enabled_domains b \<subseteq> enabled_domains b1"
    using enable_domain_grows [of b "''Runtime''" t1] e by simp
  have "enabled_domains (fst (evaluate b x t1 t2)) = enabled_domains b1"
    using e by (simp add: evaluate_def split: sum.splits prod.splits)
  then show ?thesis using g by simp
qed

lemma apply_bop_grows: "enabled_domains b \<subseteq> enabled_domains (apply_bop b x)"
  by (cases x)
     (simp_all add: enable_domain_grows navigate_grows evaluate_grows get_url_def get_title_def
        browser_close_def)

lemma brun_grows: "enabled_domains b \<subseteq> enabled_domains (brun b ops)"
proof (induction ops arbitrary: b)
  case Nil then show ?case by simp
next
  case (Cons x xs)
  show ?case using apply_bop_grows [of b x] Cons.IH [of "apply_bop b x"] by auto
qed

lemma enable_domain_again:
  assumes "snd (enable_domain b d t) = Inl e" and "connected (cdp (fst (enable_domain b d t)))"
  shows "wire (cdp (fst (enable_domain (fst (enable_domain b d t)) d t2))) =
           wire (cdp (fst (enable_domain b d t))) @
             [enable_message (id_counter (cdp (fst (enable_domain b d t))) + 1) d]"
proof -
  have "d \<notin> enabled_domains (fst (enable_domain b d t))"
    using enable_domain_failure [OF assms(1)] by simp
  then show ?thesis
    using assms(2) enable_domain_wire [of "fst (enable_domain b d t)" d t2] by simp
qed

text \<open>
  C8, as the code has it. A call of \<^verbatim>\<open>enable_domain\<close> that succeeds records the domain. A
  recorded domain stays recorded over every trace of operations on the Browser, and a
  call for it changes nothing and writes nothing. A call that fails found the domain
  unrecorded and records nothing. A call writes at most one message: the enable command,
  exactly when the domain is not recorded and the client is connected. So after a failed
  call that leaves the client connected the next call writes the enable command again,
  and a call for an unrecorded domain on a client that is not connected fails with the
  error of a client that is not connected, writes nothing and changes nothing. The set of
  recorded domains only grows over every trace.
\<close>

theorem enable_domain_once_enabled:
  "(snd (enable_domain b d t) = Inr () \<longrightarrow>
      d \<in> enabled_domains (fst (enable_domain b d t))) \<and>
   (d \<in> enabled_domains b \<longrightarrow>
      d \<in> enabled_domains (brun b ops) \<and>
      enable_domain (brun b ops) d t = (brun b ops, Inr ())) \<and>
   (\<forall>e. snd (enable_domain b d t) = Inl e \<longrightarrow>
      d \<notin> enabled_domains b \<and>
      enabled_domains (fst (enable_domain b d t)) = enabled_domains b) \<and>
   wire (cdp (fst (enable_domain b d t))) =
     wire (cdp b) @ (if d \<notin> enabled_domains b \<and> connected (cdp b)
                     then [enable_message (id_counter (cdp b) + 1) d] else []) \<and>
   (\<forall>e. snd (enable_domain b d t) = Inl e \<and> connected (cdp (fst (enable_domain b d t))) \<longrightarrow>
      wire (cdp (fst (enable_domain (fst (enable_domain b d t)) d t2))) =
        wire (cdp (fst (enable_domain b d t))) @
          [enable_message (id_counter (cdp (fst (enable_domain b d t))) + 1) d]) \<and>
   (d \<notin> enabled_domains b \<and> \<not> connected (cdp b) \<longrightarrow>
      enable_domain b d t = (b, Inl RuntimeError)) \<and>
   enabled_domains b \<subseteq> enabled_domains (brun b ops)"
proof -
  have 2: "d \<in> enabled_domains b \<longrightarrow>
      d \<in> enabled_domains (brun b ops) \<and>
      enable_domain (brun b ops) d t = (brun b ops, Inr ())"
    using brun_grows [of b ops] enable_domain_enabled [of d "brun b ops" t] by auto
  have 3: "\<forall>e. snd (enable_domain b d t) = Inl e \<longrightarrow>
      d \<notin> enabled_domains b \<and>
      enabled_domains (fst (enable_domain b d t)) = enabled_domains b"
    using enable_domain_failure [of b d t] by blast
  have 5: "\<forall>e. snd (enable_domain b d t) = Inl e \<and> connected (cdp (fst (enable_domain b d t))) \<longrightarrow>
      wire (cdp (fst (enable_domain (fst (enable_domain b d t)) d t2))) =
        wire (cdp (fst (enable_domain b d t))) @
          [enable_message (id_counter (cdp (fst (enable_domain b d t))) + 1) d]"
    using enable_domain_again [of b d t _ t2] by blast
  have 6: "d \<notin> enabled_domains b \<and> \<not> connected (cdp b) \<longrightarrow>
      enable_domain b d t = (b, Inl RuntimeError)"
    using enable_domain_not_connected [of d b t] by blast
  show ?thesis
    using 2 3 5 6 enable_domain_success [of b d t]
      enable_domain_wire [of b d t] brun_grows [of b ops]
    by blast
qed

lemma page_session_enabled:
  "snd (enable_domain page_session ''Page'' ([reply 1 (JObj [])], [])) = Inr ()"
  by (simp add: page_session_def new_browser_def fresh_connection_def init_client_def
        connect_def connected_def Let_def enable_domain_def send_def send_begin_def
        send_resume_def reply_def listen_step_def handle_message_def
        handle_response_def handle_event_def py_contains_def int_key_def dict_get_def
        resolve_callback_def set_result_def)

lemma page_session_timeout:
  "snd (enable_domain page_session ''Page'' silence) = Inl TimeoutError \<and>
   connected (cdp (fst (enable_domain page_session ''Page'' silence))) \<and>
   wire (cdp (fst (enable_domain page_session ''Page'' silence))) = [enable_message 1 ''Page''] \<and>
   id_counter (cdp (fst (enable_domain page_session ''Page'' silence))) = 1"
  by (simp add: page_session_def new_browser_def fresh_connection_def init_client_def silence_def
        connect_def connected_def Let_def enable_domain_def send_def send_begin_def
        send_resume_def timeout_fires_def enable_message_def)

theorem enable_domain_once_enabled_witness:
  "snd (enable_domain page_session ''Page'' ([reply 1 (JObj [])], [])) = Inr () \<and>
   ''Page'' \<in> enabled_domains
      (fst (enable_domain page_session ''Page'' ([reply 1 (JObj [])], []))) \<and>
   enable_domain (fst (enable_domain page_session ''Page'' ([reply 1 (JObj [])], [])))
       ''Page'' silence =
     (fst (enable_domain page_session ''Page'' ([reply 1 (JObj [])], [])), Inr ()) \<and>
   snd (enable_domain page_session ''Page'' silence) = Inl TimeoutError \<and>
   connected (cdp (fst (enable_domain page_session ''Page'' silence))) \<and>
   wire (cdp (fst (enable_domain (fst (enable_domain page_session ''Page'' silence))
                     ''Page'' silence))) =
     [enable_message 1 ''Page'', enable_message 2 ''Page''] \<and>
   ''Page'' \<notin> enabled_domains (browser_close page_session) \<and>
   \<not> connected (cdp (browser_close page_session)) \<and>
   enable_domain (browser_close page_session) ''Page'' silence =
     (browser_close page_session, Inl RuntimeError)"
proof -
  have cl: "''Page'' \<notin> enabled_domains (browser_close page_session) \<and>
      \<not> connected (cdp (browser_close page_session))"
    by (simp add: browser_close_def page_session_def new_browser_def not_connected_close)
  have 1: "''Page'' \<in> enabled_domains
      (fst (enable_domain page_session ''Page'' ([reply 1 (JObj [])], [])))"
    using page_session_enabled
      enable_domain_once_enabled [of page_session "''Page''" "([reply 1 (JObj [])], [])" "[]"]
    by blast
  have 2: "enable_domain (fst (enable_domain page_session ''Page'' ([reply 1 (JObj [])], [])))
       ''Page'' silence =
     (fst (enable_domain page_session ''Page'' ([reply 1 (JObj [])], [])), Inr ())"
    using 1 by (rule enable_domain_enabled)
  have "wire (cdp (fst (enable_domain (fst (enable_domain page_session ''Page'' silence))
                     ''Page'' silence))) =
        wire (cdp (fst (enable_domain page_session ''Page'' silence))) @
          [enable_message (id_counter (cdp (fst (enable_domain page_session ''Page'' silence))) + 1)
             ''Page'']"
    using page_session_timeout
      enable_domain_once_enabled [of page_session "''Page''" silence "[]" silence]
    by blast
  then have 3: "wire (cdp (fst (enable_domain (fst (enable_domain page_session ''Page'' silence))
                     ''Page'' silence))) =
     [enable_message 1 ''Page'', enable_message 2 ''Page'']"
    using page_session_timeout by simp
  have 4: "enable_domain (browser_close page_session) ''Page'' silence =
     (browser_close page_session, Inl RuntimeError)"
    using cl
      enable_domain_once_enabled [of "browser_close page_session" "''Page''" silence "[]" silence]
    by blast
  show ?thesis
    using page_session_enabled page_session_timeout cl 1 2 3 4 by blast
qed

text \<open>
  C8 as stated fails: the first call gets no reply and times out, so the domain is not
  recorded; the second call writes the enable command again. Two calls, two commands.
\<close>

theorem enable_domain_twice_counterexample:
  "snd (enable_domain page_session ''Page'' silence) = Inl TimeoutError \<and>
   snd (enable_domain (fst (enable_domain page_session ''Page'' silence)) ''Page''
          ([reply 2 (JObj [])], [])) = Inr () \<and>
   wire (cdp (fst (enable_domain (fst (enable_domain page_session ''Page'' silence)) ''Page''
                ([reply 2 (JObj [])], [])))) =
     [enable_message 1 ''Page'', enable_message 2 ''Page'']"
  by (simp add: page_session_def new_browser_def fresh_connection_def init_client_def silence_def
        connect_def connected_def Let_def enable_domain_def send_def send_begin_def
        send_resume_def timeout_fires_def enable_message_def reply_def listen_step_def
        handle_message_def handle_response_def handle_event_def py_contains_def int_key_def
        dict_get_def resolve_callback_def set_result_def)

section \<open>launch and the process it spawned\<close>

lemma try_connect_fields:
  "process (fst (try_connect m att)) = process m \<and> port (fst (try_connect m att)) = port m"
  by (simp add: try_connect_def Let_def split: option.splits json.splits prod.splits sum.splits)

lemma try_connect_result: "snd (try_connect m att) = attempt_result att"
  by (simp add: attempt_result_def try_connect_def Let_def
        split: option.splits json.splits prod.splits sum.splits)

lemma first_page_error: "first_page ts \<noteq> Inl BrowserError"
  by (induction ts rule: first_page.induct) simp_all

lemma attempt_result_error: "attempt_result att \<noteq> Inl BrowserError"
  using first_page_error
  by (auto simp add: attempt_result_def try_connect_def get_page_target_def Let_def
        split: option.splits json.splits prod.splits sum.splits if_splits)

text \<open>The polling loop fails with \<^verbatim>\<open>BrowserError\<close> only through its clean-up.\<close>

lemma poll_browser_error:
  "process m = Some pid \<Longrightarrow> poll m ps start timeout xs = Some (m', ps', Inl BrowserError) \<Longrightarrow>
   ps' = terminate pid ps \<and> process m' = None"
proof (induction xs arbitrary: m)
  case Nil then show ?case by simp
next
  case (Cons x xs)
  obtain now att where x: "x = (now, att)" by (cases x)
  obtain m1 r where t: "try_connect m att = (m1, r)" by (cases "try_connect m att")
  have p1: "process m1 = Some pid" using try_connect_fields [of m att] t Cons.prems(1) by simp
  have r: "r = attempt_result att" using try_connect_result [of m att] t by simp
  show ?case
  proof (cases "now - start < timeout")
    case False
    then show ?thesis using Cons.prems x by auto
  next
    case True
    show ?thesis
    proof (cases r)
      case (Inl e)
      then have "e \<noteq> BrowserError" using r attempt_result_error [of att] by auto
      then show ?thesis using Cons.prems(2) x t Inl True by simp
    next
      case (Inr ok)
      show ?thesis
      proof (cases ok)
        case True
        then show ?thesis using Cons.prems(2) x t Inr \<open>now - start < timeout\<close> by simp
      next
        case False
        then have "poll m1 ps start timeout xs = Some (m', ps', Inl BrowserError)"
          using Cons.prems(2) x t Inr True by simp
        then show ?thesis by (rule Cons.IH [OF p1])
      qed
    qed
  qed
qed

lemma poll_times_out:
  "process m = Some pid \<Longrightarrow> list_all (\<lambda>(now, att). attempt_result att = Inr False) xs \<Longrightarrow>
   list_ex (\<lambda>(now, att). timeout \<le> now - start) xs \<Longrightarrow>
   \<exists>m'. poll m ps start timeout xs = Some (m', terminate pid ps, Inl BrowserError)"
proof (induction xs arbitrary: m)
  case Nil then show ?case by simp
next
  case (Cons x xs)
  obtain now att where x: "x = (now, att)" by (cases x)
  obtain m1 r where t: "try_connect m att = (m1, r)" by (cases "try_connect m att")
  have p1: "process m1 = Some pid" using try_connect_fields [of m att] t Cons.prems(1) by simp
  have r: "r = Inr False" using try_connect_result [of m att] t Cons.prems(2) x by simp
  show ?case
  proof (cases "now - start < timeout")
    case False
    then show ?thesis using Cons.prems(1) x by simp
  next
    case True
    then have "list_ex (\<lambda>(now, att). timeout \<le> now - start) xs"
      using Cons.prems(3) x by simp
    then obtain m' where "poll m1 ps start timeout xs = Some (m', terminate pid ps, Inl BrowserError)"
      using Cons.IH [OF p1] Cons.prems(2) by auto
    then show ?thesis using x t r True by simp
  qed
qed

lemma spawned_stopped_refl: "spawned_stopped ps ps"
  by (simp add: spawned_stopped_def)

lemma spawned_stopped_terminate:
  "spawned_stopped ps (terminate (length ps) (ps @ [(args, Alive)]))"
  by (simp add: spawned_stopped_def terminate_def)

text \<open>
  Where \<^verbatim>\<open>launch\<close> does what is asked of it: whenever it fails with \<^verbatim>\<open>BrowserError\<close>, every
  process it spawned has been terminated and the manager no longer holds it; and when no
  attempt attaches or raises and a clock reading is past the timeout, it does fail so.
\<close>

lemma launch_browser_error:
  assumes "launch m ps headless use_profile timeout env = Some (m', ps', Inl BrowserError)"
  shows "spawned_stopped ps ps' \<and> (length ps < length ps' \<longrightarrow> process m' = None)"
proof -
  obtain m1 r where t: "try_connect m (first_attempt env) = (m1, r)"
    by (cases "try_connect m (first_attempt env)")
  have na: "\<not> attached m" using assms by (auto simp add: launch_def)
  have "r = attempt_result (first_attempt env)"
    using try_connect_result [of m "first_attempt env"] t by simp
  then have "r \<noteq> Inl BrowserError" using attempt_result_error by simp
  then have r: "r = Inr False"
    using assms na t by (cases r) (auto simp add: launch_def split: bool.splits)
  show ?thesis
  proof (cases "chrome_path env")
    case None
    then show ?thesis using assms na t r by (simp add: launch_def spawned_stopped_refl)
  next
    case (Some path)
    show ?thesis
    proof (cases "path = [] \<or> \<not> popen_ok env")
      case True
      then show ?thesis using assms na t r Some
        by (auto simp add: launch_def spawned_stopped_refl split: if_splits)
    next
      case False
      let ?args = "launch_args m1 path headless use_profile env"
      have p: "poll (m1\<lparr>process := Some (length ps)\<rparr>) (ps @ [(?args, Alive)])
                 (start_time env) timeout (polls env) = Some (m', ps', Inl BrowserError)"
        using assms na t r Some False by (simp add: launch_def)
      have "ps' = terminate (length ps) (ps @ [(?args, Alive)]) \<and> process m' = None"
        using poll_browser_error [OF _ p, of "length ps"] by simp
      then show ?thesis by (simp add: spawned_stopped_terminate)
    qed
  qed
qed

lemma launch_times_out:
  assumes "\<not> attached m" "attempt_result (first_attempt env) = Inr False"
    "list_all (\<lambda>(now, att). attempt_result att = Inr False) (polls env)"
    "list_ex (\<lambda>(now, att). timeout \<le> now - start_time env) (polls env)"
  shows "\<exists>m2 ps2. launch m ps headless use_profile timeout env = Some (m2, ps2, Inl BrowserError) \<and>
           spawned_stopped ps ps2"
proof -
  obtain m1 r where t: "try_connect m (first_attempt env) = (m1, r)"
    by (cases "try_connect m (first_attempt env)")
  have r: "r = Inr False" using try_connect_result [of m "first_attempt env"] t assms(2) by simp
  have "\<exists>m2 ps2. launch m ps headless use_profile timeout env = Some (m2, ps2, Inl BrowserError)"
  proof (cases "chrome_path env")
    case None
    then show ?thesis using assms(1) t r by (simp add: launch_def)
  next
    case (Some path)
    show ?thesis
    proof (cases "path = [] \<or> \<not> popen_ok env")
      case True
      then show ?thesis using assms(1) t r Some by (auto simp add: launch_def split: if_splits)
    next
      case False
      let ?args = "launch_args m1 path headless use_profile env"
      obtain m2 where "poll (m1\<lparr>process := Some (length ps)\<rparr>) (ps @ [(?args, Alive)])
                 (start_time env) timeout (polls env) =
            Some (m2, terminate (length ps) (ps @ [(?args, Alive)]), Inl BrowserError)"
        using poll_times_out [OF _ assms(3,4), of "m1\<lparr>process := Some (length ps)\<rparr>" "length ps"]
        by auto
      then show ?thesis using assms(1) t r Some False by (simp add: launch_def)
    qed
  qed
  then obtain m2 ps2 where
    l: "launch m ps headless use_profile timeout env = Some (m2, ps2, Inl BrowserError)"
    by blast
  then show ?thesis using launch_browser_error [OF l] by blast
qed

text \<open>
  C5 at a failing input. When the spawned browser never comes up and the timeout elapses,
  \<^verbatim>\<open>launch\<close> terminates the process and fails with \<^verbatim>\<open>BrowserError\<close>. When instead the port
  answers a discovery request of the polling loop with a JSON object, \<^verbatim>\<open>target.get\<close> in
  \<^verbatim>\<open>_get_page_target\<close> raises \<^verbatim>\<open>AttributeError\<close> before the \<^verbatim>\<open>try\<close> of \<^verbatim>\<open>_try_connect\<close>: the
  exception leaves \<^verbatim>\<open>launch\<close> past its clean-up, the error is not \<^verbatim>\<open>BrowserError\<close>, and the
  spawned process is alive and still held by the manager.
\<close>

theorem wrong_shape_answer_leaves_process_running:
  "launch (init_manager 9222) [] True False 1 no_browser_env =
     Some ((init_manager 9222)\<lparr>http_client := True\<rparr>,
           [(launch_args (init_manager 9222) ''/usr/bin/chromium'' True False no_browser_env,
             Terminated)],
           Inl BrowserError) \<and>
   attempt_result wrong_shape = Inl AttributeError \<and>
   launch (init_manager 9222) [] True False 30 wrong_shape_env =
     Some ((init_manager 9222)\<lparr>http_client := True, process := Some 0\<rparr>,
           [(launch_args (init_manager 9222) ''/usr/bin/chromium'' True False wrong_shape_env,
             Alive)],
           Inl AttributeError)"
  by (simp add: launch_def attached_def init_manager_def no_browser_env_def wrong_shape_env_def
        nothing_listening_def wrong_shape_def attempt_result_def try_connect_def
        get_page_target_def Let_def terminate_def launch_args_def)

end
